theory Spec2Isabelle
  imports Main "HOL-Library.Sublist"
begin

section \<open>Text primitives\<close>

text \<open>
  The four scripts work on Python \<open>str\<close> values with regular expressions and string
  methods. A document is modelled as a \<open>string\<close>, one \<open>char\<close> per code point; the model
  covers the code points below 256. \<open>len\<close> is \<open>length\<close>.
\<close>

abbreviation DQ :: char where "DQ \<equiv> CHR 0x22"
abbreviation SQ :: char where "SQ \<equiv> CHR 0x27"
abbreviation NL :: char where "NL \<equiv> CHR 0x0A"

text \<open>
  \<open>\s\<close> in a \<open>str\<close> pattern and \<open>str.strip()\<close> use the same whitespace test; below 256 the
  whitespace code points are 9 to 13, 28 to 32, 133 and 160.
\<close>

definition is_space :: "char \<Rightarrow> bool" where
  "is_space c = (c \<in> set [CHR 0x09, CHR 0x0A, CHR 0x0B, CHR 0x0C, CHR 0x0D,
     CHR 0x1C, CHR 0x1D, CHR 0x1E, CHR 0x1F, CHR 0x20, CHR 0x85, CHR 0xA0])"

text \<open>\<open>\d\<close>: below 256 the decimal digits are \<open>0\<close> to \<open>9\<close>.\<close>

definition is_digit :: "char \<Rightarrow> bool" where
  "is_digit c = (c \<in> set ''0123456789'')"

definition is_lower :: "char \<Rightarrow> bool" where
  "is_lower c = (c \<in> set ''abcdefghijklmnopqrstuvwxyz'')"

definition is_upper :: "char \<Rightarrow> bool" where
  "is_upper c = (c \<in> set ''ABCDEFGHIJKLMNOPQRSTUVWXYZ'')"

text \<open>\<open>[a-z]\<close> or \<open>[A-Z]\<close> under \<open>re.IGNORECASE\<close>.\<close>

definition is_alpha :: "char \<Rightarrow> bool" where
  "is_alpha c = (is_lower c \<or> is_upper c)"

text \<open>\<open>s.strip()\<close>\<close>

definition strip :: "string \<Rightarrow> string" where
  "strip s = rev (dropWhile is_space (rev (dropWhile is_space s)))"

text \<open>A literal piece of a pattern: the rest of the text after the literal, if it is there.\<close>

fun strip_prefix :: "string \<Rightarrow> string \<Rightarrow> string option" where
  "strip_prefix [] s = Some s"
| "strip_prefix (p # ps) [] = None"
| "strip_prefix (p # ps) (c # cs) = (if p = c then strip_prefix ps cs else None)"

text \<open>\<open>sub in s\<close>\<close>

fun contains :: "string \<Rightarrow> string \<Rightarrow> bool" where
  "contains sub [] = (sub = [])"
| "contains sub (c # cs) = (strip_prefix sub (c # cs) \<noteq> None \<or> contains sub cs)"

text \<open>\<open>s.replace(old, new, 1)\<close>: the first occurrence of \<open>old\<close>, scanning from the left.\<close>

fun replace_first :: "string \<Rightarrow> string \<Rightarrow> string \<Rightarrow> string" where
  "replace_first old new [] = (if old = [] then new else [])"
| "replace_first old new (c # cs) =
     (case strip_prefix old (c # cs) of
        Some r \<Rightarrow> new @ r
      | None \<Rightarrow> c # replace_first old new cs)"

text \<open>\<open>s.replace(old, new)\<close> for a non-empty \<open>old\<close>: every occurrence, left to right, not overlapping.\<close>

function replace_all :: "string \<Rightarrow> string \<Rightarrow> string \<Rightarrow> string" where
  "replace_all old new s =
     (case s of
        [] \<Rightarrow> []
      | c # cs \<Rightarrow>
         (case strip_prefix old s of
            Some r \<Rightarrow> if length r < length s then new @ replace_all old new r
                      else c # replace_all old new cs
          | None \<Rightarrow> c # replace_all old new cs))"
  by pat_completeness auto
termination
  by (relation "measure (\<lambda>(old, new, s). length s)") auto

declare replace_all.simps [simp del]

text \<open>
  \<open>html.escape(s)\<close> with the default \<open>quote=True\<close>: \<open>&\<close> first, then \<open><\<close>, \<open>>\<close>, the
  double quote and the single quote; each step replaces one character by an entity.
\<close>

definition replace_char :: "char \<Rightarrow> string \<Rightarrow> string \<Rightarrow> string" where
  "replace_char x r s = concat (map (\<lambda>c. if c = x then r else [c]) s)"

definition html_escape :: "string \<Rightarrow> string" where
  "html_escape s =
     replace_char SQ ''&#x27;''
       (replace_char DQ ''&quot;''
         (replace_char (CHR ''>'') ''&gt;''
           (replace_char (CHR ''<'') ''&lt;''
             (replace_char (CHR ''&'') ''&amp;'' s))))"

text \<open>
  \<open>int(s)\<close> on a string of decimal digits, and \<open>f"{n}"\<close>, \<open>f"{n:02d}"\<close>, \<open>f"{n:03d}"\<close>.
  Integers are unbounded; a limit of the interpreter on the number of digits \<open>int\<close> accepts
  is not modelled.
\<close>

definition digit_val :: "char \<Rightarrow> nat" where
  "digit_val c = length (takeWhile (\<lambda>d. d \<noteq> c) ''0123456789'')"

definition int_of_digits :: "string \<Rightarrow> nat" where
  "int_of_digits s = foldl (\<lambda>a c. 10 * a + digit_val c) 0 s"

definition digit_char :: "nat \<Rightarrow> char" where
  "digit_char d = ''0123456789'' ! d"

function dec :: "nat \<Rightarrow> string" where
  "dec n = (if n < 10 then [digit_char n] else dec (n div 10) @ [digit_char (n mod 10)])"
  by pat_completeness auto
termination
  by (relation "measure id") auto

declare dec.simps [simp del]

definition zfill :: "nat \<Rightarrow> string \<Rightarrow> string" where
  "zfill w s = replicate (w - length s) (CHR ''0'') @ s"

section \<open>Regular expressions as scanners\<close>

text \<open>
  \<open>re.search\<close>, \<open>re.finditer\<close>, \<open>re.findall\<close> and \<open>re.sub\<close> try the pattern at each
  position from the left; \<open>finditer\<close>, \<open>findall\<close> and \<open>sub\<close> go on after the end of a match.
  A pattern is modelled by its matcher at a position: the text from that position on is
  mapped to the groups of the match and the text after it, or to \<open>None\<close>.
\<close>

fun search :: "(string \<Rightarrow> 'a option) \<Rightarrow> string \<Rightarrow> 'a option" where
  "search m [] = m []"
| "search m (c # cs) = (case m (c # cs) of Some x \<Rightarrow> Some x | None \<Rightarrow> search m cs)"

function finditer :: "(string \<Rightarrow> ('a \<times> string) option) \<Rightarrow> string \<Rightarrow> 'a list" where
  "finditer m s =
     (case m s of
        Some (x, rest) \<Rightarrow>
          if length rest < length s then x # finditer m rest
          else x # (case s of [] \<Rightarrow> [] | c # cs \<Rightarrow> finditer m cs)
      | None \<Rightarrow> (case s of [] \<Rightarrow> [] | c # cs \<Rightarrow> finditer m cs))"
  by pat_completeness auto
termination
  by (relation "measure (\<lambda>(m, s). length s)") auto

declare finditer.simps [simp del]

text \<open>\<open>match.group(0)\<close>: the text between the start of the match and the rest.\<close>

definition group0 :: "string \<Rightarrow> string \<Rightarrow> string" where
  "group0 s rest = take (length s - length rest) s"

section \<open>Bibliography entries of a derivative document\<close>

text \<open>
  Both bibliography fixers find the entries with
  \<^verbatim>\<open><bibliomixed id="([^"]+)">([^<]*)</bibliomixed>\<close>.
  The id runs to the first double quote and is not empty, the content runs to the first
  \<open><\<close> and may be empty; a shorter id or content is followed by a character of its own
  class, so backtracking finds nothing more. A match gives \<open>group(0)\<close>, the id and the content.
\<close>

definition entry :: "string \<Rightarrow> string \<Rightarrow> string" where
  "entry bid txt = ''<bibliomixed id='' @ [DQ] @ bid @ [DQ] @ ''>'' @ txt @ ''</bibliomixed>''"

definition bibliomixed_at :: "string \<Rightarrow> ((string \<times> string \<times> string) \<times> string) option" where
  "bibliomixed_at s =
     (case strip_prefix (''<bibliomixed id='' @ [DQ]) s of
        None \<Rightarrow> None
      | Some r1 \<Rightarrow>
         let bid = takeWhile (\<lambda>c. c \<noteq> DQ) r1; r2 = dropWhile (\<lambda>c. c \<noteq> DQ) r1 in
         if bid = [] then None
         else (case strip_prefix (DQ # ''>'') r2 of
            None \<Rightarrow> None
          | Some r3 \<Rightarrow>
             let cur = takeWhile (\<lambda>c. c \<noteq> CHR ''<'') r3;
                 r4 = dropWhile (\<lambda>c. c \<noteq> CHR ''<'') r3 in
             (case strip_prefix ''</bibliomixed>'' r4 of
                None \<Rightarrow> None
              | Some rest \<Rightarrow> Some ((group0 s rest, bid, cur), rest))))"

definition bib_matches :: "string \<Rightarrow> (string \<times> string \<times> string) list" where
  "bib_matches content = finditer bibliomixed_at content"

text \<open>
  \<^verbatim>\<open>re.search(r'bib(\d+)$', bib_id)\<close>: the digits run to the end of the id, or to a
  newline that ends it (\<open>$\<close> without \<open>re.MULTILINE\<close>); \<open>int\<close> reads them.
\<close>

definition bib_num_at :: "string \<Rightarrow> string option" where
  "bib_num_at s =
     (case strip_prefix ''bib'' s of
        None \<Rightarrow> None
      | Some r \<Rightarrow>
         let ds = takeWhile is_digit r; rest = dropWhile is_digit r in
         if ds \<noteq> [] \<and> (rest = [] \<or> rest = [NL]) then Some ds else None)"

definition bib_num :: "string \<Rightarrow> nat option" where
  "bib_num bib_id = map_option int_of_digits (search bib_num_at bib_id)"

text \<open>
  \<open>len(current) < len(full_citation) * 0.7\<close>. The product is a double; for lengths below
  \<open>2^49\<close> its comparison with an integer agrees with the exact comparison of
  \<open>10 * len(current)\<close> with \<open>7 * len(full_citation)\<close>, which the model uses.
\<close>

definition truncated :: "nat \<Rightarrow> nat \<Rightarrow> bool" where
  "truncated cur full = (10 * cur < 7 * full)"

definition new_entry :: "string \<Rightarrow> string \<Rightarrow> string" where
  "new_entry bib_id full_citation = entry bib_id (html_escape full_citation)"

subsection \<open>\<open>fix_bibliography_content\<close> (fix\_content\_loss.py)\<close>

record bib_fix =
  fix_bib_id :: string
  fix_original :: string
  fix_restored :: string

text \<open>\<open>s[:100] + '...' if len(s) > 100 else s\<close>\<close>

definition preview :: "string \<Rightarrow> string" where
  "preview s = (if length s > 100 then take 100 s @ ''...'' else s)"

definition possible_ids :: "nat \<Rightarrow> string list" where
  "possible_ids n = [''CR'' @ dec n, ''CR'' @ zfill 2 (dec n), ''CR'' @ zfill 3 (dec n)]"

text \<open>The loop over \<open>possible_ids\<close> stops at the first id that is a key of \<open>citations\<close>.\<close>

fun first_present :: "(string \<rightharpoonup> string) \<Rightarrow> string list \<Rightarrow> string option" where
  "first_present citations [] = None"
| "first_present citations (i # ids) =
     (case citations i of Some full \<Rightarrow> Some full | None \<Rightarrow> first_present citations ids)"

definition mk_fix :: "string \<Rightarrow> string \<Rightarrow> string \<Rightarrow> bib_fix" where
  "mk_fix bib_id cur full =
     \<lparr>fix_bib_id = bib_id, fix_original = preview cur, fix_restored = preview full\<rparr>"

text \<open>The body of the loop over the matches; the state is \<open>(fixed_content, fixes_made)\<close>.\<close>

definition bib_content_step ::
  "(string \<rightharpoonup> string) \<Rightarrow> string \<times> bib_fix list \<Rightarrow> string \<times> string \<times> string
     \<Rightarrow> string \<times> bib_fix list" where
  "bib_content_step citations st m =
     (case (st, m) of ((fixed_content, fixes_made), (old_entry, bib_id, current_content)) \<Rightarrow>
        (case bib_num bib_id of
           None \<Rightarrow> (fixed_content, fixes_made)
         | Some n \<Rightarrow>
            (case first_present citations (possible_ids n) of
               None \<Rightarrow> (fixed_content, fixes_made)
             | Some full_citation \<Rightarrow>
                if truncated (length current_content) (length full_citation)
                then (replace_first old_entry (new_entry bib_id full_citation) fixed_content,
                      fixes_made @ [mk_fix bib_id current_content full_citation])
                else (fixed_content, fixes_made))))"

definition fix_bibliography_content ::
  "string \<Rightarrow> (string \<rightharpoonup> string) \<Rightarrow> string \<times> bib_fix list" where
  "fix_bibliography_content xml_content citations =
     foldl (bib_content_step citations) (xml_content, []) (bib_matches xml_content)"

subsection \<open>\<open>fix_bibliography_file\<close> (fix\_remaining\_bibliography.py)\<close>

text \<open>
  The citations are keyed by number here, and the length is taken after \<open>strip()\<close>. The
  state of the loop is \<open>(content, fixes_made)\<close>.
\<close>

definition bib_file_step ::
  "(nat \<rightharpoonup> string) \<Rightarrow> string \<times> nat \<Rightarrow> string \<times> string \<times> string \<Rightarrow> string \<times> nat" where
  "bib_file_step citations st m =
     (case (st, m) of ((content, fixes_made), (old_entry, bib_id, current_content)) \<Rightarrow>
        (case bib_num bib_id of
           None \<Rightarrow> (content, fixes_made)
         | Some n \<Rightarrow>
            (case citations n of
               None \<Rightarrow> (content, fixes_made)
             | Some full_citation \<Rightarrow>
                if truncated (length (strip current_content)) (length full_citation)
                then (replace_first old_entry (new_entry bib_id full_citation) content,
                      fixes_made + 1)
                else (content, fixes_made))))"

text \<open>
  The file is read, the loop runs on the text, and the text is written back only when
  \<open>fixes_made > 0\<close>. The result is the text of the file afterwards and \<open>fixes_made\<close>.
\<close>

definition fix_bibliography_file :: "string \<Rightarrow> (nat \<rightharpoonup> string) \<Rightarrow> string \<times> nat" where
  "fix_bibliography_file file_text citations =
     (case foldl (bib_file_step citations) (file_text, 0) (bib_matches file_text) of
        (content, fixes_made) \<Rightarrow>
          (if fixes_made > 0 then content else file_text, fixes_made))"

subsection \<open>Lines 404 to 423 of \<open>process_all_chapters\<close> (fix\_content\_loss.py)\<close>

text \<open>
  The text of the bibliography file in the output tree is read, fixed in memory, and written
  back only when the list of fixes is not empty (\<open>if bib_fixes:\<close>). The result is the text
  of the output file afterwards and the fixes added to the report.
\<close>

definition restore_bibliography ::
  "string \<Rightarrow> (string \<rightharpoonup> string) \<Rightarrow> string \<times> bib_fix list" where
  "restore_bibliography xml_content citations =
     (case fix_bibliography_content xml_content citations of
        (fixed_content, bib_fixes) \<Rightarrow>
          (if bib_fixes \<noteq> [] then fixed_content else xml_content, bib_fixes))"

subsection \<open>The classification in the words of the specification\<close>

text \<open>
  The matched clean citation text of a region: the number at the end of its id, looked up
  in the citations of the source document (by \<open>CR\<close> key in fix\_content\_loss.py, by number
  in fix\_remaining\_bibliography.py).
\<close>

definition matched_clean :: "(string \<rightharpoonup> string) \<Rightarrow> string \<Rightarrow> string option" where
  "matched_clean citations bib_id =
     (case bib_num bib_id of None \<Rightarrow> None | Some n \<Rightarrow> first_present citations (possible_ids n))"

definition matched_clean_num :: "(nat \<rightharpoonup> string) \<Rightarrow> string \<Rightarrow> string option" where
  "matched_clean_num citations bib_id =
     (case bib_num bib_id of None \<Rightarrow> None | Some n \<Rightarrow> citations n)"

text \<open>
  A region found by the pattern is corrupted when it has a matched clean text and its text
  is shorter than 70 percent of it; fix\_remaining\_bibliography.py measures the text
  after \<open>strip()\<close>.
\<close>

definition corrupted_content :: "(string \<rightharpoonup> string) \<Rightarrow> string \<times> string \<times> string \<Rightarrow> bool" where
  "corrupted_content citations m =
     (case m of (g, bib_id, txt) \<Rightarrow>
        (case matched_clean citations bib_id of
           None \<Rightarrow> False
         | Some clean \<Rightarrow> 10 * length txt < 7 * length clean))"

definition corrupted_file :: "(nat \<rightharpoonup> string) \<Rightarrow> string \<times> string \<times> string \<Rightarrow> bool" where
  "corrupted_file citations m =
     (case m of (g, bib_id, txt) \<Rightarrow>
        (case matched_clean_num citations bib_id of
           None \<Rightarrow> False
         | Some clean \<Rightarrow> 10 * length (strip txt) < 7 * length clean))"

section \<open>Identity mapping between derivative and source chapters\<close>

subsection \<open>\<open>main\<close> of fix\_remaining\_bibliography.py\<close>

text \<open>
  \<^verbatim>\<open>re.search(r'<chaptertitle>(\d+)\.', content)\<close>: the digits after the tag run to the
  first character that is no digit, which has to be the period.
\<close>

definition chaptertitle_at :: "string \<Rightarrow> string option" where
  "chaptertitle_at s =
     (case strip_prefix ''<chaptertitle>'' s of
        None \<Rightarrow> None
      | Some r \<Rightarrow>
         let ds = takeWhile is_digit r; rest = dropWhile is_digit r in
         if ds \<noteq> [] \<and> strip_prefix ''.'' rest \<noteq> None then Some ds else None)"

definition chaptertitle_num :: "string \<Rightarrow> nat option" where
  "chaptertitle_num content = map_option int_of_digits (search chaptertitle_at content)"

text \<open>\<open>s.endswith(suffix)\<close>\<close>

definition ends_with :: "string \<Rightarrow> string \<Rightarrow> bool" where
  "ends_with s suf = (strip_prefix (rev suf) (rev s) \<noteq> None)"

text \<open>
  \<open>get_xhtml_file_for_chapter\<close>: the first file of the source directory whose name matches
  the glob \<^verbatim>\<open>*_{n}_Chapter.xhtml\<close>, that is, ends with \<^verbatim>\<open>_{n}_Chapter.xhtml\<close>. The directory
  is the list of its file names, in the order the glob yields them.
\<close>

definition get_xhtml_file_for_chapter :: "string list \<Rightarrow> nat \<Rightarrow> string option" where
  "get_xhtml_file_for_chapter xhtml_dir title_chapter_num =
     (case filter (\<lambda>name. ends_with name (''_'' @ dec title_chapter_num @ ''_Chapter.xhtml''))
             xhtml_dir of
        [] \<Rightarrow> None
      | f # fs \<Rightarrow> Some f)"

text \<open>
  The loop body of \<open>main\<close> up to the choice of the source file: without a title match, or
  without a file for the chapter, the document is skipped with a warning (\<open>None\<close>).
\<close>

definition resolve_chapter_source :: "string list \<Rightarrow> string \<Rightarrow> string option" where
  "resolve_chapter_source xhtml_dir content =
     (case chaptertitle_num content of
        None \<Rightarrow> None
      | Some title_ch_num \<Rightarrow> get_xhtml_file_for_chapter xhtml_dir title_ch_num)"

subsection \<open>Chapter numbers in fix\_content\_loss.py\<close>

text \<open>
  \<open>get_chapter_number_from_xhtml\<close>: \<^verbatim>\<open>re.search(r'_(\d+)_Chapter\.xhtml$', filename)\<close>.
\<close>

definition chapter_file_at :: "string \<Rightarrow> string option" where
  "chapter_file_at s =
     (case strip_prefix ''_'' s of
        None \<Rightarrow> None
      | Some r \<Rightarrow>
         let ds = takeWhile is_digit r; rest = dropWhile is_digit r in
         if ds = [] then None
         else (case strip_prefix ''_Chapter.xhtml'' rest of
            None \<Rightarrow> None
          | Some e \<Rightarrow> if e = [] \<or> e = [NL] then Some ds else None))"

definition get_chapter_number_from_xhtml :: "string \<Rightarrow> nat option" where
  "get_chapter_number_from_xhtml filename = map_option int_of_digits (search chapter_file_at filename)"

text \<open>
  One entry of the list built by \<open>analyze_chapter_mapping\<close>: a source file, the number in
  its name, its chapter title and the ordinal at the start of that title, if any.
\<close>

record chapter_mapping =
  xhtml_file :: string
  xhtml_num :: nat
  title :: string
  title_ch_num :: "nat option"

text \<open>
  \<open>get_xml_chapter_id_for_xhtml\<close>: the loop returns at the first mapping of the chapter
  whose title ordinal is truthy (present and not 0); after the loop the source number is
  returned as it is.
\<close>

fun get_xml_chapter_id_for_xhtml :: "nat \<Rightarrow> chapter_mapping list \<Rightarrow> nat" where
  "get_xml_chapter_id_for_xhtml n [] = n"
| "get_xml_chapter_id_for_xhtml n (m # ms) =
     (if xhtml_num m = n then
        (case title_ch_num m of
           Some t \<Rightarrow> if t \<noteq> 0 then t + 2 else get_xml_chapter_id_for_xhtml n ms
         | None \<Rightarrow> get_xml_chapter_id_for_xhtml n ms)
      else get_xml_chapter_id_for_xhtml n ms)"

text \<open>
  \<open>process_all_chapters\<close> goes through the source chapters and patches, for each, the
  bibliography file of the derivative chapter \<open>get_xml_chapter_id_for_xhtml\<close> gives. The
  source chapters from which a derivative chapter is patched are therefore these.
\<close>

definition paired_xhtml_chapters :: "chapter_mapping list \<Rightarrow> nat list \<Rightarrow> nat \<Rightarrow> nat list" where
  "paired_xhtml_chapters mappings xhtml_chapters xml_ch_id =
     filter (\<lambda>xhtml_ch. get_xml_chapter_id_for_xhtml xhtml_ch mappings = xml_ch_id) xhtml_chapters"

section \<open>Keywords\<close>

subsection \<open>Reading a file\<close>

text \<open>
  \<open>open(path, 'r', encoding='utf-8')\<close> and \<open>f.read()\<close> give the text of the file or raise.
  A file is modelled by the result of reading it.
\<close>

datatype py_exception = OSError | UnicodeDecodeError

type_synonym file_read = "py_exception + string"

subsection \<open>\<open>extract_keywords_from_xhtml\<close> (fix\_keywords.py, fix\_all\_keywords.py)\<close>

text \<open>
  \<^verbatim>\<open><span class="Keyword"[^>]*>([^<]+)</span>\<close>: the attributes run to the first \<open>>\<close>,
  the token runs to the first \<open><\<close> and is not empty. \<open>re.findall\<close> gives the tokens; they
  are stripped, and those that are empty after stripping are left out.
\<close>

definition keyword_at :: "string \<Rightarrow> (string \<times> string) option" where
  "keyword_at s =
     (case strip_prefix (''<span class='' @ [DQ] @ ''Keyword'' @ [DQ]) s of
        None \<Rightarrow> None
      | Some r1 \<Rightarrow>
         (case dropWhile (\<lambda>c. c \<noteq> CHR ''>'') r1 of
            [] \<Rightarrow> None
          | g # r2 \<Rightarrow>
             let k = takeWhile (\<lambda>c. c \<noteq> CHR ''<'') r2;
                 r3 = dropWhile (\<lambda>c. c \<noteq> CHR ''<'') r2 in
             if k = [] then None
             else (case strip_prefix ''</span>'' r3 of
                None \<Rightarrow> None
              | Some rest \<Rightarrow> Some (k, rest))))"

definition keywords_of_text :: "string \<Rightarrow> string list" where
  "keywords_of_text content = filter (\<lambda>k. k \<noteq> []) (map strip (finditer keyword_at content))"

text \<open>The \<open>try\<close> block: it raises what reading the file raises.\<close>

definition keywords_body :: "file_read \<Rightarrow> py_exception + string list" where
  "keywords_body xhtml =
     (case xhtml of Inl e \<Rightarrow> Inl e | Inr content \<Rightarrow> Inr (keywords_of_text content))"

text \<open>\<open>except Exception\<close>: the message is printed and the empty list returned.\<close>

definition extract_keywords_from_xhtml :: "file_read \<Rightarrow> string list" where
  "extract_keywords_from_xhtml xhtml =
     (case keywords_body xhtml of Inl e \<Rightarrow> [] | Inr keywords \<Rightarrow> keywords)"

subsection \<open>The structured keyword list\<close>

text \<open>
  \<^verbatim>\<open>keywords_xml = '<keywordset>\n'\<close>, then for each keyword
  \<^verbatim>\<open>f'      <keyword>{html.escape(keyword)}</keyword>\n'\<close>, then \<^verbatim>\<open>'   </keywordset>'\<close>.
\<close>

definition keywords_xml :: "string list \<Rightarrow> string" where
  "keywords_xml keywords =
     foldl (\<lambda>acc keyword. acc @ ''      <keyword>'' @ html_escape keyword @ ''</keyword>'' @ [NL])
       (''<keywordset>'' @ [NL]) keywords
     @ ''   </keywordset>''"

subsection \<open>Patterns under \<open>re.IGNORECASE\<close>\<close>

text \<open>
  Under \<open>re.IGNORECASE\<close> a letter of the pattern matches both of its cases, and the classes
  \<open>[a-z]\<close> and \<open>[A-Z]\<close> match every letter \<open>is_alpha\<close> accepts.
\<close>

definition lower_char :: "char \<Rightarrow> char" where
  "lower_char c =
     (case map_of (zip ''ABCDEFGHIJKLMNOPQRSTUVWXYZ'' ''abcdefghijklmnopqrstuvwxyz'') c of
        Some l \<Rightarrow> l
      | None \<Rightarrow> c)"

fun strip_prefix_ci :: "string \<Rightarrow> string \<Rightarrow> string option" where
  "strip_prefix_ci [] s = Some s"
| "strip_prefix_ci (p # ps) [] = None"
| "strip_prefix_ci (p # ps) (c # cs) =
     (if lower_char p = lower_char c then strip_prefix_ci ps cs else None)"

text \<open>\<open>[a-z0-9_. +-]\<close>, \<open>[a-z0-9_.+-]\<close>, \<open>[a-z0-9-]\<close>, \<open>[a-z-]\<close> and \<open>[A-Za-z-]\<close>,
  \<open>[a-z0-9_ -]\<close>, \<open>[A-Za-z -]\<close>, all under \<open>re.IGNORECASE\<close>.\<close>

definition local_part_char :: "char \<Rightarrow> bool" where
  "local_part_char c = (is_alpha c \<or> is_digit c \<or> c \<in> set ''_. +-'')"

definition local_part_char_nospace :: "char \<Rightarrow> bool" where
  "local_part_char_nospace c = (is_alpha c \<or> is_digit c \<or> c \<in> set ''_.+-'')"

definition domain_char :: "char \<Rightarrow> bool" where
  "domain_char c = (is_alpha c \<or> is_digit c \<or> c = CHR ''-'')"

definition word_char :: "char \<Rightarrow> bool" where
  "word_char c = (is_alpha c \<or> c = CHR ''-'')"

definition domain_char_space :: "char \<Rightarrow> bool" where
  "domain_char_space c = (is_alpha c \<or> is_digit c \<or> c \<in> set ''_ -'')"

definition phrase_char :: "char \<Rightarrow> bool" where
  "phrase_char c = (is_alpha c \<or> c \<in> set '' -'')"

subsection \<open>\<open>fix_keywords_in_file\<close> and \<open>find_garbled_keywords_files\<close> (fix\_keywords.py)\<close>

text \<open>
  The greedy loop \<^verbatim>\<open>(?:\s+[A-Za-z-]+)*\<close>: whitespace and a word, as often as both are
  there. What follows the loop in the pattern is \<^verbatim>\<open></para>\<close>, which starts with a character
  that is neither whitespace nor a word character, so giving back part of what the loop took
  can never let the rest match.
\<close>

function words_loop :: "string \<Rightarrow> string" where
  "words_loop s =
     (let r = dropWhile is_space s in
      if takeWhile is_space s \<noteq> [] \<and> takeWhile word_char r \<noteq> []
      then words_loop (dropWhile word_char r) else s)"
  by pat_completeness auto
termination
proof (relation "measure length")
  show "wf (measure length)" by simp
next
  fix s r
  assume r: "r = dropWhile is_space s"
    and c: "takeWhile is_space s \<noteq> [] \<and> takeWhile word_char r \<noteq> []"
  have "length (dropWhile word_char r) \<le> length r" by (rule length_dropWhile_le)
  moreover have "length r < length s"
  proof -
    have "length s = length (takeWhile is_space s) + length (dropWhile is_space s)"
      by (metis length_append takeWhile_dropWhile_id)
    with c r show ?thesis by simp
  qed
  ultimately show "(dropWhile word_char r, s) \<in> measure length" by simp
qed

declare words_loop.simps [simp del]

text \<open>
  \<open>garbled_pattern\<close> of \<open>fix_keywords_in_file\<close>, under \<open>re.IGNORECASE\<close>:
  \<^verbatim>\<open><para>([a-z0-9_. +-]+@[a-z0-9-]+\.\s*[a-z]+\s+[A-Z][a-z-]+(?:\s+[A-Za-z-]+)*)</para>\<close>.
  Each repeated class is followed by a character outside the class, so every repetition
  takes all it can. The result is \<open>group(0)\<close>, \<open>group(1)\<close> and the text after the match.
\<close>

definition garbled_at :: "string \<Rightarrow> ((string \<times> string) \<times> string) option" where
  "garbled_at s =
     (case strip_prefix_ci ''<para>'' s of
        None \<Rightarrow> None
      | Some r0 \<Rightarrow>
         if takeWhile local_part_char r0 = [] then None
         else (case strip_prefix ''@'' (dropWhile local_part_char r0) of
            None \<Rightarrow> None
          | Some r2 \<Rightarrow>
             if takeWhile domain_char r2 = [] then None
             else (case strip_prefix ''.'' (dropWhile domain_char r2) of
                None \<Rightarrow> None
              | Some r4 \<Rightarrow>
                 let r5 = dropWhile is_space r4; r6 = dropWhile is_alpha r5;
                     r7 = dropWhile is_space r6 in
                 if takeWhile is_alpha r5 = [] \<or> takeWhile is_space r6 = [] then None
                 else (case r7 of
                    [] \<Rightarrow> None
                  | c # r8 \<Rightarrow>
                     if \<not> is_alpha c \<or> takeWhile word_char r8 = [] then None
                     else (let r10 = words_loop (dropWhile word_char r8) in
                       case strip_prefix_ci ''</para>'' r10 of
                         None \<Rightarrow> None
                       | Some rest \<Rightarrow> Some ((group0 s rest, group0 r0 r10), rest))))))"

record kw_fix =
  kw_file :: string
  kw_original :: string
  kw_keywords :: "string list"

text \<open>
  \<open>fix_keywords_in_file\<close>: the text of the file afterwards (written only when the
  pattern matches and the keyword list is not empty) and the returned record, or \<open>None\<close>.
\<close>

definition fix_keywords_in_file :: "string \<Rightarrow> string \<Rightarrow> string list \<Rightarrow> string \<times> kw_fix option" where
  "fix_keywords_in_file name content keywords =
     (case search garbled_at content of
        None \<Rightarrow> (content, None)
      | Some ((old_para, original_content), rest) \<Rightarrow>
          if keywords = [] then (content, None)
          else (replace_first old_para (keywords_xml keywords) content,
                Some \<lparr>kw_file = name, kw_original = preview original_content,
                       kw_keywords = keywords\<rparr>))"

text \<open>
  The greedy loop \<^verbatim>\<open>(\s+[A-Z][a-z-]+)+\<close> of \<open>find_garbled_keywords_files\<close>: whitespace, a
  letter and at least one word character, as often as all three are there; the number of
  rounds is returned with the rest.
\<close>

function cap_words_loop :: "nat \<Rightarrow> string \<Rightarrow> nat \<times> string" where
  "cap_words_loop n s =
     (let r = dropWhile is_space s in
      if takeWhile is_space s \<noteq> [] \<and> r \<noteq> [] \<and> is_alpha (hd r)
           \<and> takeWhile word_char (tl r) \<noteq> []
      then cap_words_loop (Suc n) (dropWhile word_char (tl r)) else (n, s))"
  by pat_completeness auto
termination
proof (relation "measure (\<lambda>(n, s). length s)")
  show "wf (measure (\<lambda>(n, s). length s))" by simp
next
  fix n :: nat and s r
  assume r: "r = dropWhile is_space s"
    and c: "takeWhile is_space s \<noteq> [] \<and> r \<noteq> [] \<and> is_alpha (hd r)
           \<and> takeWhile word_char (tl r) \<noteq> []"
  have "length (dropWhile word_char (tl r)) \<le> length (tl r)" by (rule length_dropWhile_le)
  moreover have "length (tl r) \<le> length r" by simp
  moreover have "length r < length s"
  proof -
    have "length s = length (takeWhile is_space s) + length (dropWhile is_space s)"
      by (metis length_append takeWhile_dropWhile_id)
    with c r show ?thesis by simp
  qed
  ultimately show "((Suc n, dropWhile word_char (tl r)), (n, s)) \<in> measure (\<lambda>(n, s). length s)"
    by simp
qed

declare cap_words_loop.simps [simp del]

text \<open>
  The pattern of \<open>find_garbled_keywords_files\<close>, under \<open>re.IGNORECASE\<close>:
  \<^verbatim>\<open><para>[a-z0-9_.+-]+\s*@\s*[a-z0-9-]+\.\s*[a-z]+\s+[A-Z][a-z-]+(\s+[A-Z][a-z-]+)+</para>\<close>.
\<close>

definition find_garbled_at :: "string \<Rightarrow> unit option" where
  "find_garbled_at s =
     (case strip_prefix_ci ''<para>'' s of
        None \<Rightarrow> None
      | Some r0 \<Rightarrow>
         if takeWhile local_part_char_nospace r0 = [] then None
         else (case strip_prefix ''@'' (dropWhile is_space (dropWhile local_part_char_nospace r0)) of
            None \<Rightarrow> None
          | Some r2 \<Rightarrow>
             let r3 = dropWhile is_space r2 in
             if takeWhile domain_char r3 = [] then None
             else (case strip_prefix ''.'' (dropWhile domain_char r3) of
                None \<Rightarrow> None
              | Some r4 \<Rightarrow>
                 let r5 = dropWhile is_space r4; r6 = dropWhile is_alpha r5;
                     r7 = dropWhile is_space r6 in
                 if takeWhile is_alpha r5 = [] \<or> takeWhile is_space r6 = [] then None
                 else (case r7 of
                    [] \<Rightarrow> None
                  | c # r8 \<Rightarrow>
                     if \<not> is_alpha c \<or> takeWhile word_char r8 = [] then None
                     else (case cap_words_loop 0 (dropWhile word_char r8) of
                        (n, r10) \<Rightarrow>
                          if n = 0 then None
                          else map_option (\<lambda>rest. ()) (strip_prefix_ci ''</para>'' r10))))))"

text \<open>The test of \<open>find_garbled_keywords_files\<close> on the text of one file.\<close>

definition is_garbled_keywords_file :: "string \<Rightarrow> bool" where
  "is_garbled_keywords_file content = (search find_garbled_at content \<noteq> None)"

subsection \<open>\<open>fix_keywords_section\<close> (fix\_content\_loss.py)\<close>

text \<open>
  \<^verbatim>\<open><para>([^<]*@[^<]*\.(edu|com|org)[^<]*(?:Depression|Dysthymia|Mood|Assessment|Anxiety|Disorder)[^<]*)</para>\<close>,
  case sensitive. Every piece between the tags is within \<open>[^<]*\<close>, so the paragraph text
  runs to the first \<open><\<close>, where \<^verbatim>\<open></para>\<close> has to stand. The engine tries every split of that
  text, so it matches exactly when the text holds an \<open>@\<close>, after it one of \<open>.edu\<close>, \<open>.com\<close>,
  \<open>.org\<close>, and after that one of the six words; the first \<open>@\<close> and the first such ending
  after it leave the most text for what follows.
\<close>

definition tld_at :: "string \<Rightarrow> string option" where
  "tld_at s =
     (case strip_prefix ''.edu'' s of
        Some r \<Rightarrow> Some r
      | None \<Rightarrow>
         (case strip_prefix ''.com'' s of
            Some r \<Rightarrow> Some r
          | None \<Rightarrow> strip_prefix ''.org'' s))"

definition garbled_text :: "string \<Rightarrow> bool" where
  "garbled_text t =
     (case dropWhile (\<lambda>c. c \<noteq> CHR ''@'') t of
        [] \<Rightarrow> False
      | a # r1 \<Rightarrow>
         (case search tld_at r1 of
            None \<Rightarrow> False
          | Some r2 \<Rightarrow>
             list_ex (\<lambda>k. contains k r2)
               [''Depression'', ''Dysthymia'', ''Mood'', ''Assessment'', ''Anxiety'', ''Disorder'']))"

definition section_garbled_at :: "string \<Rightarrow> (string \<times> string) option" where
  "section_garbled_at s =
     (case strip_prefix ''<para>'' s of
        None \<Rightarrow> None
      | Some r0 \<Rightarrow>
         let t = takeWhile (\<lambda>c. c \<noteq> CHR ''<'') r0 in
         (case strip_prefix ''</para>'' (dropWhile (\<lambda>c. c \<noteq> CHR ''<'') r0) of
            None \<Rightarrow> None
          | Some rest \<Rightarrow> if garbled_text t then Some (group0 s rest, t) else None))"

record section_fix =
  sf_original :: string
  sf_keywords :: "string list"

text \<open>\<open>fix_keywords_section\<close> replaces every occurrence of the matched paragraph.\<close>

definition fix_keywords_section :: "string \<Rightarrow> string list \<Rightarrow> string \<times> section_fix list" where
  "fix_keywords_section xml_content keywords =
     (case search section_garbled_at xml_content of
        None \<Rightarrow> (xml_content, [])
      | Some (old_para, garbled_content) \<Rightarrow>
          if keywords = [] then (xml_content, [])
          else (replace_all old_para (keywords_xml keywords) xml_content,
                [\<lparr>sf_original = preview garbled_content, sf_keywords = keywords\<rparr>]))"

subsection \<open>From a derivative file to its source file by the fixed offset\<close>

text \<open>
  \<^verbatim>\<open>re.search(r'ch(\d+)', xml_file.name)\<close> and \<open>int\<close>; \<open>get_chapter_from_xml_file\<close> of
  fix\_keywords.py.
\<close>

definition ch_at :: "string \<Rightarrow> string option" where
  "ch_at s =
     (case strip_prefix ''ch'' s of
        None \<Rightarrow> None
      | Some r \<Rightarrow> if takeWhile is_digit r = [] then None else Some (takeWhile is_digit r))"

definition get_chapter_from_xml_file :: "string \<Rightarrow> nat option" where
  "get_chapter_from_xml_file name = map_option int_of_digits (search ch_at name)"

text \<open>\<open>f"{i}"\<close> for an integer that may be negative.\<close>

definition dec_int :: "int \<Rightarrow> string" where
  "dec_int i = (if i < 0 then ''-'' @ dec (nat (- i)) else dec (nat i))"

text \<open>
  \<open>get_xhtml_chapter_file\<close> of the two keyword scripts: \<open>xhtml_chapter = xml_chapter - 2\<close>
  and the first file matching \<^verbatim>\<open>*_{xhtml_chapter}_Chapter.xhtml\<close>. The source directory is
  the list of its files, each a name and the result of reading it.
\<close>

definition get_xhtml_chapter_file ::
  "(string \<times> file_read) list \<Rightarrow> int \<Rightarrow> (string \<times> file_read) option" where
  "get_xhtml_chapter_file xhtml_dir xml_chapter =
     (let xhtml_chapter = xml_chapter - 2 in
      case filter (\<lambda>f. ends_with (fst f) (''_'' @ dec_int xhtml_chapter @ ''_Chapter.xhtml''))
             xhtml_dir of
        [] \<Rightarrow> None
      | f # fs \<Rightarrow> Some f)"

subsection \<open>The loop body of \<open>main\<close> in fix\_keywords.py\<close>

text \<open>
  For a file selected by \<open>find_garbled_keywords_files\<close>: the chapter of the file name (a
  chapter 0 is skipped by \<open>if not xml_ch\<close>), the source file, its keywords, and
  \<open>fix_keywords_in_file\<close>. The result is the text of the file afterwards and the fix.
\<close>

definition fix_keywords_main_step ::
  "(string \<times> file_read) list \<Rightarrow> string \<Rightarrow> string \<Rightarrow> string \<times> kw_fix option" where
  "fix_keywords_main_step xhtml_dir name content =
     (if \<not> is_garbled_keywords_file content then (content, None)
      else (case get_chapter_from_xml_file name of
         None \<Rightarrow> (content, None)
       | Some xml_ch \<Rightarrow>
          if xml_ch = 0 then (content, None)
          else (case get_xhtml_chapter_file xhtml_dir (int xml_ch) of
             None \<Rightarrow> (content, None)
           | Some source_file \<Rightarrow>
              let keywords = extract_keywords_from_xhtml (snd source_file) in
              if keywords = [] then (content, None)
              else fix_keywords_in_file name content keywords)))"

subsection \<open>\<open>fix_all_garbled_keywords\<close> (fix\_all\_keywords.py)\<close>

text \<open>
  Pattern 1, under \<open>re.IGNORECASE\<close>:
  \<^verbatim>\<open><para>([a-z0-9_. +-]+@[a-z0-9_ -]+\.\s*[a-z]+)\s+([A-Z][A-Za-z -]+(?:\s+[A-Za-z -]+)*)</para>\<close>.
  After the first letter of the second group the pattern takes phrase characters and
  whitespace up to \<^verbatim>\<open></para>\<close>: \<^verbatim>\<open>[A-Za-z -]+(?:\s+[A-Za-z -]+)*\<close> matches exactly the
  non-empty texts of phrase characters and whitespace that begin and end with a phrase
  character. Only \<open>group(0)\<close> is used.
\<close>

definition all_pattern1_at :: "string \<Rightarrow> (string \<times> string) option" where
  "all_pattern1_at s =
     (case strip_prefix_ci ''<para>'' s of
        None \<Rightarrow> None
      | Some r0 \<Rightarrow>
         if takeWhile local_part_char r0 = [] then None
         else (case strip_prefix ''@'' (dropWhile local_part_char r0) of
            None \<Rightarrow> None
          | Some r2 \<Rightarrow>
             if takeWhile domain_char_space r2 = [] then None
             else (case strip_prefix ''.'' (dropWhile domain_char_space r2) of
                None \<Rightarrow> None
              | Some r4 \<Rightarrow>
                 let r5 = dropWhile is_space r4; r6 = dropWhile is_alpha r5;
                     r7 = dropWhile is_space r6 in
                 if takeWhile is_alpha r5 = [] \<or> takeWhile is_space r6 = [] then None
                 else (case r7 of
                    [] \<Rightarrow> None
                  | c # r8 \<Rightarrow>
                     let u = takeWhile (\<lambda>c. phrase_char c \<or> is_space c) r8 in
                     if \<not> is_alpha c \<or> u = [] \<or> \<not> phrase_char (hd u) \<or> \<not> phrase_char (last u)
                     then None
                     else (case strip_prefix_ci ''</para>''
                                 (dropWhile (\<lambda>c. phrase_char c \<or> is_space c) r8) of
                         None \<Rightarrow> None
                       | Some rest \<Rightarrow> Some (group0 s rest, rest))))))"

text \<open>
  Pattern 2, under \<open>re.IGNORECASE\<close>: \<^verbatim>\<open><para>([^<]+@[^<]+)</para>\<close>. The paragraph text runs
  to the first \<open><\<close> and holds an \<open>@\<close> that is neither its first nor its last character.
\<close>

definition all_pattern2_at :: "string \<Rightarrow> (string \<times> string) option" where
  "all_pattern2_at s =
     (case strip_prefix_ci ''<para>'' s of
        None \<Rightarrow> None
      | Some r0 \<Rightarrow>
         let t = takeWhile (\<lambda>c. c \<noteq> CHR ''<'') r0 in
         if CHR ''@'' \<notin> set (butlast (tl t)) then None
         else (case strip_prefix_ci ''</para>'' (dropWhile (\<lambda>c. c \<noteq> CHR ''<'') r0) of
            None \<Rightarrow> None
          | Some rest \<Rightarrow> Some (group0 s rest, rest)))"

text \<open>
  The loop over the patterns for one file. A pattern that matches leads to the lookup of the
  source keywords; each failing lookup is a \<open>continue\<close> to the next pattern; the first
  success replaces the first occurrence of the matched paragraph and ends the loop.
\<close>

fun try_patterns ::
  "(string \<times> file_read) list \<Rightarrow> string \<Rightarrow> string \<Rightarrow> (string \<Rightarrow> (string \<times> string) option) list
     \<Rightarrow> string \<times> kw_fix option" where
  "try_patterns xhtml_dir name content [] = (content, None)"
| "try_patterns xhtml_dir name content (p # ps) =
     (case search p content of
        None \<Rightarrow> try_patterns xhtml_dir name content ps
      | Some (old_para, rest) \<Rightarrow>
         (case get_chapter_from_xml_file name of
            None \<Rightarrow> try_patterns xhtml_dir name content ps
          | Some xml_ch \<Rightarrow>
             (case get_xhtml_chapter_file xhtml_dir (int xml_ch) of
                None \<Rightarrow> try_patterns xhtml_dir name content ps
              | Some source_file \<Rightarrow>
                 let keywords = extract_keywords_from_xhtml (snd source_file) in
                 if keywords = [] then try_patterns xhtml_dir name content ps
                 else (replace_first old_para (keywords_xml keywords) content,
                       Some \<lparr>kw_file = name, kw_original = take 100 old_para,
                              kw_keywords = keywords\<rparr>))))"

text \<open>
  One round of the loop over the files: a file that cannot be read, a file without \<open>@\<close> and
  a file that already holds \<^verbatim>\<open><keywordset>\<close> are left as they are.
\<close>

definition fix_all_file ::
  "(string \<times> file_read) list \<Rightarrow> string \<Rightarrow> file_read \<Rightarrow> file_read \<times> kw_fix option" where
  "fix_all_file xhtml_dir name file =
     (case file of
        Inl e \<Rightarrow> (Inl e, None)
      | Inr content \<Rightarrow>
          if CHR ''@'' \<notin> set content then (Inr content, None)
          else if contains ''<keywordset>'' content then (Inr content, None)
          else (case try_patterns xhtml_dir name content [all_pattern1_at, all_pattern2_at] of
                  (new_content, fix) \<Rightarrow> (Inr new_content, fix)))"

text \<open>
  \<open>fix_all_garbled_keywords\<close> on a derivative corpus, the list of its files in sorted
  order: the corpus afterwards and the list of fixes.
\<close>

definition fix_all_garbled_keywords ::
  "(string \<times> file_read) list \<Rightarrow> (string \<times> file_read) list
     \<Rightarrow> (string \<times> file_read) list \<times> kw_fix list" where
  "fix_all_garbled_keywords xhtml_dir xml_files =
     (map (\<lambda>f. (fst f, fst (fix_all_file xhtml_dir (fst f) (snd f)))) xml_files,
      List.map_filter (\<lambda>f. snd (fix_all_file xhtml_dir (fst f) (snd f))) xml_files)"

subsection \<open>Texts without whitespace at either end\<close>

text \<open>The texts that \<open>strip()\<close> leaves as they are.\<close>

definition trimmed :: "string \<Rightarrow> bool" where
  "trimmed s = (s = [] \<or> (\<not> is_space (hd s) \<and> \<not> is_space (last s)))"

section \<open>Citations of a source document\<close>

subsection \<open>\<open>re.sub\<close>\<close>

text \<open>
  \<open>re.sub(pattern, repl, s)\<close>: the matcher of a pattern gives the replacement of the match
  and the text after it; what lies between the matches is kept.
\<close>

function sub_all :: "(string \<Rightarrow> (string \<times> string) option) \<Rightarrow> string \<Rightarrow> string" where
  "sub_all m s =
     (case m s of
        Some (rep, rest) \<Rightarrow>
          if length rest < length s then rep @ sub_all m rest
          else rep @ (case s of [] \<Rightarrow> [] | c # cs \<Rightarrow> c # sub_all m cs)
      | None \<Rightarrow> (case s of [] \<Rightarrow> [] | c # cs \<Rightarrow> c # sub_all m cs))"
  by pat_completeness auto
termination
  by (relation "measure (\<lambda>(m, s). length s)") auto

declare sub_all.simps [simp del]

subsection \<open>The cleaning steps\<close>

text \<open>\<^verbatim>\<open><span class="RefSource">[^<]*</span>\<close>, replaced by the empty text.\<close>

definition refsource_at :: "string \<Rightarrow> (string \<times> string) option" where
  "refsource_at s =
     (case strip_prefix (''<span class='' @ [DQ] @ ''RefSource'' @ [DQ] @ ''>'') s of
        None \<Rightarrow> None
      | Some r \<Rightarrow>
         map_option (\<lambda>rest. ([], rest))
           (strip_prefix ''</span>'' (dropWhile (\<lambda>c. c \<noteq> CHR ''<'') r)))"

text \<open>\<^verbatim>\<open><span class="Occurrence[^"]*">[^<]*</span>\<close>, replaced by the empty text.\<close>

definition occurrence_at :: "string \<Rightarrow> (string \<times> string) option" where
  "occurrence_at s =
     (case strip_prefix (''<span class='' @ [DQ] @ ''Occurrence'') s of
        None \<Rightarrow> None
      | Some r \<Rightarrow>
         (case strip_prefix (DQ # ''>'') (dropWhile (\<lambda>c. c \<noteq> DQ) r) of
            None \<Rightarrow> None
          | Some r2 \<Rightarrow>
             map_option (\<lambda>rest. ([], rest))
               (strip_prefix ''</span>'' (dropWhile (\<lambda>c. c \<noteq> CHR ''<'') r2))))"

text \<open>
  \<^verbatim>\<open><a[^>]*>([^<]*)</a>\<close>, \<^verbatim>\<open><em[^>]*>([^<]*)</em>\<close> and \<^verbatim>\<open><span[^>]*>([^<]*)</span>\<close>, each
  replaced by its group 1: the opening tag runs to the first \<open>>\<close>, the text to the first
  \<open><\<close>, where the closing tag has to stand.
\<close>

definition wrapper_at :: "string \<Rightarrow> string \<Rightarrow> string \<Rightarrow> (string \<times> string) option" where
  "wrapper_at opening closing s =
     (case strip_prefix opening s of
        None \<Rightarrow> None
      | Some r \<Rightarrow>
         (case dropWhile (\<lambda>c. c \<noteq> CHR ''>'') r of
            [] \<Rightarrow> None
          | g # r2 \<Rightarrow>
             map_option (\<lambda>rest. (takeWhile (\<lambda>c. c \<noteq> CHR ''<'') r2, rest))
               (strip_prefix closing (dropWhile (\<lambda>c. c \<noteq> CHR ''<'') r2))))"

text \<open>\<^verbatim>\<open></?[a-z][^>]*>\<close>, case sensitive, replaced by the empty text.\<close>

definition tag_at :: "string \<Rightarrow> (string \<times> string) option" where
  "tag_at s =
     (case strip_prefix ''<'' s of
        None \<Rightarrow> None
      | Some r \<Rightarrow>
         (case (case strip_prefix ''/'' r of Some r1 \<Rightarrow> r1 | None \<Rightarrow> r) of
            [] \<Rightarrow> None
          | l # r2 \<Rightarrow>
             if \<not> is_lower l then None
             else (case dropWhile (\<lambda>c. c \<noteq> CHR ''>'') r2 of
                [] \<Rightarrow> None
              | g # rest \<Rightarrow> Some ([], rest))))"

text \<open>\<^verbatim>\<open>\s+\<close>, replaced by one space.\<close>

definition ws_at :: "string \<Rightarrow> (string \<times> string) option" where
  "ws_at s = (if takeWhile is_space s = [] then None else Some ('' '', dropWhile is_space s))"

text \<open>
  \<open>html.unescape(s)\<close> returns \<open>s\<close> itself when it holds no \<open>&\<close>, and otherwise the result
  of substituting the character references, \<open>_charref.sub(_replace_charref, s)\<close>. That
  substitution belongs to the standard library; it is a parameter of the model.
\<close>

definition html_unescape :: "(string \<Rightarrow> string) \<Rightarrow> string \<Rightarrow> string" where
  "html_unescape charref_sub s = (if CHR ''&'' \<in> set s then charref_sub s else s)"

text \<open>
  The eight assignments to \<open>clean_content\<close>, in the order of the source: the first five
  (\<open>collapse_wrappers\<close>), the removal of the remaining tags, the whitespace step with
  \<open>strip()\<close>, and \<open>html.unescape\<close>.
\<close>

definition collapse_wrappers :: "string \<Rightarrow> string" where
  "collapse_wrappers cit_content =
     sub_all (wrapper_at ''<span'' ''</span>'')
       (sub_all (wrapper_at ''<em'' ''</em>'')
         (sub_all (wrapper_at ''<a'' ''</a>'')
           (sub_all occurrence_at
             (sub_all refsource_at cit_content))))"

definition strip_markup :: "string \<Rightarrow> string" where
  "strip_markup cit_content = sub_all tag_at (collapse_wrappers cit_content)"

definition collapse_whitespace :: "string \<Rightarrow> string" where
  "collapse_whitespace s = strip (sub_all ws_at s)"

definition clean_citation :: "(string \<Rightarrow> string) \<Rightarrow> string \<Rightarrow> string" where
  "clean_citation charref_sub cit_content =
     html_unescape charref_sub (collapse_whitespace (strip_markup cit_content))"

subsection \<open>The citation regions\<close>

text \<open>The text before the first occurrence of \<open>sub\<close>, and the text after it.\<close>

fun split_first :: "string \<Rightarrow> string \<Rightarrow> (string \<times> string) option" where
  "split_first sub [] = (if sub = [] then Some ([], []) else None)"
| "split_first sub (c # cs) =
     (case strip_prefix sub (c # cs) of
        Some r \<Rightarrow> Some ([], r)
      | None \<Rightarrow> map_option (\<lambda>(b, a). (c # b, a)) (split_first sub cs))"

text \<open>
  \<^verbatim>\<open><div class="CitationContent" id="(CR\d+)">(.*?)</div>\<close> with \<open>re.DOTALL\<close>: the lazy
  group 2 ends at the first \<^verbatim>\<open></div>\<close>. The result is the digits of the id, group 2 and the
  text after the match.
\<close>

definition citation_at :: "string \<Rightarrow> ((string \<times> string) \<times> string) option" where
  "citation_at s =
     (case strip_prefix (''<div class='' @ [DQ] @ ''CitationContent'' @ [DQ] @ '' id='' @ [DQ] @ ''CR'') s of
        None \<Rightarrow> None
      | Some r \<Rightarrow>
         if takeWhile is_digit r = [] then None
         else (case strip_prefix (DQ # ''>'') (dropWhile is_digit r) of
            None \<Rightarrow> None
          | Some r2 \<Rightarrow>
             map_option (\<lambda>(cit_content, rest). ((takeWhile is_digit r, cit_content), rest))
               (split_first ''</div>'' r2)))"

subsection \<open>\<open>extract_citations_with_regex\<close> (fix\_content\_loss.py)\<close>

text \<open>
  The dictionary is filled in the order of the matches, a later citation with the same id
  replacing an earlier one. The \<open>try\<close> block raises what reading the file raises; on any
  exception the function returns the empty dictionary and the empty list.
\<close>

definition citations_body ::
  "(string \<Rightarrow> string) \<Rightarrow> file_read \<Rightarrow> py_exception + ((string \<rightharpoonup> string) \<times> string list)" where
  "citations_body charref_sub xhtml =
     (case xhtml of
        Inl e \<Rightarrow> Inl e
      | Inr content \<Rightarrow>
          Inr (foldl (\<lambda>citations m. citations(''CR'' @ fst m \<mapsto> clean_citation charref_sub (snd m)))
                 Map.empty (finditer citation_at content),
               keywords_of_text content))"

definition extract_citations_with_regex ::
  "(string \<Rightarrow> string) \<Rightarrow> file_read \<Rightarrow> (string \<rightharpoonup> string) \<times> string list" where
  "extract_citations_with_regex charref_sub xhtml =
     (case citations_body charref_sub xhtml of Inl e \<Rightarrow> (Map.empty, []) | Inr r \<Rightarrow> r)"

subsection \<open>\<open>extract_citations_from_xhtml\<close> (fix\_remaining\_bibliography.py)\<close>

text \<open>The same cleaning; the key is the number of the id.\<close>

definition numbered_citations_body ::
  "(string \<Rightarrow> string) \<Rightarrow> file_read \<Rightarrow> py_exception + (nat \<rightharpoonup> string)" where
  "numbered_citations_body charref_sub xhtml =
     (case xhtml of
        Inl e \<Rightarrow> Inl e
      | Inr content \<Rightarrow>
          Inr (foldl (\<lambda>citations m.
                   citations(int_of_digits (fst m) \<mapsto> clean_citation charref_sub (snd m)))
                 Map.empty (finditer citation_at content)))"

definition extract_citations_from_xhtml ::
  "(string \<Rightarrow> string) \<Rightarrow> file_read \<Rightarrow> (nat \<rightharpoonup> string)" where
  "extract_citations_from_xhtml charref_sub xhtml =
     (case numbered_citations_body charref_sub xhtml of Inl e \<Rightarrow> Map.empty | Inr r \<Rightarrow> r)"

subsection \<open>What the specification says of a clean text\<close>

text \<open>
  Whitespace collapsed and trimmed: every whitespace character is a space, no two spaces
  stand side by side, and the text has no whitespace at either end.
\<close>

definition normalized_ws :: "string \<Rightarrow> bool" where
  "normalized_ws s =
     (list_all (\<lambda>c. \<not> is_space c \<or> c = CHR '' '') s \<and> \<not> contains ''  '' s \<and> trimmed s)"

text \<open>
  A text of simple markup: pieces of text without \<open><\<close>, and tags that open with \<open><\<close> or
  \<open></\<close> and a lower-case letter and run to their \<open>>\<close>.
\<close>

datatype piece = Text string | Tag bool char string

fun render_piece :: "piece \<Rightarrow> string" where
  "render_piece (Text s) = s"
| "render_piece (Tag closing l body) =
     ''<'' @ (if closing then ''/'' else []) @ [l] @ body @ ''>''"

fun valid_piece :: "piece \<Rightarrow> bool" where
  "valid_piece (Text s) = (CHR ''<'' \<notin> set s)"
| "valid_piece (Tag closing l body) = (is_lower l \<and> CHR ''>'' \<notin> set body)"

definition render :: "piece list \<Rightarrow> string" where
  "render ps = concat (map render_piece ps)"

section \<open>Index terms: \<open>verify_indexterm_fixes\<close> (fix\_content\_loss.py)\<close>

text \<open>\<open>re.finditer\<close> with the start position of each match, counted from \<open>i\<close>.\<close>

function finditer_pos ::
  "(string \<Rightarrow> ('a \<times> string) option) \<Rightarrow> nat \<Rightarrow> string \<Rightarrow> (nat \<times> 'a) list" where
  "finditer_pos m i s =
     (case m s of
        Some (x, rest) \<Rightarrow>
          if length rest < length s
          then (i, x) # finditer_pos m (i + (length s - length rest)) rest
          else (i, x) # (case s of [] \<Rightarrow> [] | c # cs \<Rightarrow> finditer_pos m (Suc i) cs)
      | None \<Rightarrow> (case s of [] \<Rightarrow> [] | c # cs \<Rightarrow> finditer_pos m (Suc i) cs))"
  by pat_completeness auto
termination
  by (relation "measure (\<lambda>(m, i, s). length s)") auto

declare finditer_pos.simps [simp del]

text \<open>
  \<^verbatim>\<open><indexterm[^>]*>\s*<primary>([^<]+)</primary>\s*</indexterm>\<close>: the result is
  \<open>group(0)\<close>, the primary text and the text after the match.
\<close>

definition indexterm_at :: "string \<Rightarrow> ((string \<times> string) \<times> string) option" where
  "indexterm_at s =
     (case strip_prefix ''<indexterm'' s of
        None \<Rightarrow> None
      | Some r \<Rightarrow>
         (case dropWhile (\<lambda>c. c \<noteq> CHR ''>'') r of
            [] \<Rightarrow> None
          | g # r1 \<Rightarrow>
             (case strip_prefix ''<primary>'' (dropWhile is_space r1) of
                None \<Rightarrow> None
              | Some r3 \<Rightarrow>
                 let indexterm_text = takeWhile (\<lambda>c. c \<noteq> CHR ''<'') r3 in
                 if indexterm_text = [] then None
                 else (case strip_prefix ''</primary>'' (dropWhile (\<lambda>c. c \<noteq> CHR ''<'') r3) of
                    None \<Rightarrow> None
                  | Some r4 \<Rightarrow>
                     (case strip_prefix ''</indexterm>'' (dropWhile is_space r4) of
                        None \<Rightarrow> None
                      | Some rest \<Rightarrow> Some ((group0 s rest, indexterm_text), rest))))))"

text \<open>
  \<open>re.search(pattern, content)\<close> as a test: the pattern matches at some position.
  \<^verbatim>\<open>\s*\<close> in front of a piece: the piece matches after some of the whitespace that stands
  there (the engine gives whitespace back until the piece matches).
\<close>

fun found :: "(string \<Rightarrow> bool) \<Rightarrow> string \<Rightarrow> bool" where
  "found p [] = p []"
| "found p (c # cs) = (p (c # cs) \<or> found p cs)"

fun ws_star_then :: "(string \<Rightarrow> bool) \<Rightarrow> string \<Rightarrow> bool" where
  "ws_star_then p [] = p []"
| "ws_star_then p (c # cs) = (p (c # cs) \<or> (is_space c \<and> ws_star_then p cs))"

text \<open>
  \<open>re.escape\<close> makes a pattern that matches its argument letter by letter.
  \<open>expected_pattern\<close> is \<^verbatim>\<open>re.escape(indexterm_text) + r'\s*' + re.escape(full_match)\<close>.
\<close>

definition expected_at :: "string \<Rightarrow> string \<Rightarrow> string \<Rightarrow> bool" where
  "expected_at indexterm_text full_match s =
     (case strip_prefix indexterm_text s of
        None \<Rightarrow> False
      | Some r \<Rightarrow> ws_star_then (\<lambda>t. strip_prefix full_match t \<noteq> None) r)"

text \<open>
  \<open>start_of_para_pattern\<close> is
  \<^verbatim>\<open>r'<para[^>]*>\s*' + re.escape(indexterm_text) + r'\s*' + re.escape(full_match[:20])\<close>.
\<close>

definition start_of_para_at :: "string \<Rightarrow> string \<Rightarrow> string \<Rightarrow> bool" where
  "start_of_para_at indexterm_text full_match s =
     (case strip_prefix ''<para'' s of
        None \<Rightarrow> False
      | Some r \<Rightarrow>
         (case dropWhile (\<lambda>c. c \<noteq> CHR ''>'') r of
            [] \<Rightarrow> False
          | g # r1 \<Rightarrow> ws_star_then (expected_at indexterm_text (take 20 full_match)) r1))"

record indexterm_issue =
  issue_file :: string
  issue_text :: string
  issue_context :: string

text \<open>
  The loop over the markers of one file. Both searches run over the whole \<open>content\<close>;
  \<open>preceding_context\<close> is assigned and not used. The context of an issue is
  \<open>content[max(0, match.start()-50):match.start()]\<close>.
\<close>

definition indexterm_issues :: "string \<Rightarrow> string \<Rightarrow> indexterm_issue list" where
  "indexterm_issues name content =
     List.map_filter
       (\<lambda>m. case m of (start, full_match, indexterm_text) \<Rightarrow>
          if \<not> found (expected_at indexterm_text full_match) content
             \<and> \<not> found (start_of_para_at indexterm_text full_match) content
          then Some \<lparr>issue_file = name, issue_text = indexterm_text,
                      issue_context = drop (start - 50) (take start content)\<rparr>
          else None)
       (finditer_pos indexterm_at 0 content)"

text \<open>
  The files are those matching \<^verbatim>\<open>sect1.*.xml\<close>, in sorted order; a file that cannot be
  read is reported and skipped.
\<close>

definition is_sect1_file :: "string \<Rightarrow> bool" where
  "is_sect1_file name =
     (case strip_prefix ''sect1.'' name of None \<Rightarrow> False | Some r \<Rightarrow> ends_with r ''.xml'')"

definition verify_indexterm_fixes :: "(string \<times> file_read) list \<Rightarrow> indexterm_issue list" where
  "verify_indexterm_fixes output_dir =
     concat (map (\<lambda>f. case snd f of Inl e \<Rightarrow> [] | Inr content \<Rightarrow> indexterm_issues (fst f) content)
                 (filter (\<lambda>f. is_sect1_file (fst f)) output_dir))"

section \<open>Properties of the text primitives and of the bibliography scanner\<close>

lemma strip_prefix_Some: "strip_prefix p s = Some r \<longleftrightarrow> s = p @ r"
  by (induction p s rule: strip_prefix.induct) auto

lemma strip_prefix_None: "strip_prefix p s = None \<longleftrightarrow> \<not> prefix p s"
  by (induction p s rule: strip_prefix.induct) auto

lemma strip_prefix_append [simp]: "strip_prefix p (p @ r) = Some r"
  by (simp add: strip_prefix_Some)

lemma group0_append [simp]: "group0 (m @ rest) rest = m"
  by (simp add: group0_def)

lemma span_until:
  "x \<notin> set xs \<Longrightarrow> takeWhile (\<lambda>c. c \<noteq> x) (xs @ x # ys) = xs"
  "x \<notin> set xs \<Longrightarrow> dropWhile (\<lambda>c. c \<noteq> x) (xs @ x # ys) = x # ys"
  by (induction xs) auto

lemma bibliomixed_at_entry:
  assumes "bid \<noteq> []" "DQ \<notin> set bid" "CHR ''<'' \<notin> set cur"
  shows "bibliomixed_at (entry bid cur @ rest) = Some ((entry bid cur, bid, cur), rest)"
proof -
  have e: "entry bid cur @ rest = (''<bibliomixed id='' @ [DQ]) @ (bid @ DQ # (''>'' @ cur @ CHR ''<'' # ''/bibliomixed>'' @ rest))"
    by (simp add: entry_def)
  have g: "group0 (entry bid cur @ rest) rest = entry bid cur" by simp
  show ?thesis
    unfolding bibliomixed_at_def e strip_prefix_append
    using assms g
    by (simp add: span_until Let_def e del: group0_append)
qed

lemma bibliomixed_at_SomeD:
  assumes "bibliomixed_at s = Some ((g, bid, cur), rest)"
  shows "g = entry bid cur \<and> s = entry bid cur @ rest \<and> bid \<noteq> [] \<and> DQ \<notin> set bid \<and> CHR ''<'' \<notin> set cur"
proof -
  from assms obtain r1 where r1: "s = (''<bibliomixed id='' @ [DQ]) @ r1"
    by (auto simp: bibliomixed_at_def strip_prefix_Some split: option.splits)
  let ?b = "takeWhile (\<lambda>c. c \<noteq> DQ) r1"
  let ?r2 = "dropWhile (\<lambda>c. c \<noteq> DQ) r1"
  from assms r1 have b: "?b \<noteq> []" "bid = ?b"
    by (auto simp: bibliomixed_at_def Let_def split: option.splits if_splits)
  from assms r1 obtain r3 where r3: "?r2 = DQ # ''>'' @ r3"
    by (auto simp: bibliomixed_at_def Let_def strip_prefix_Some split: option.splits if_splits)
  let ?c = "takeWhile (\<lambda>c. c \<noteq> CHR ''<'') r3"
  let ?r4 = "dropWhile (\<lambda>c. c \<noteq> CHR ''<'') r3"
  from assms r1 r3 have c: "cur = ?c" "?r4 = ''</bibliomixed>'' @ rest" "g = group0 s rest"
    by (auto simp: bibliomixed_at_def Let_def strip_prefix_Some split: option.splits if_splits)
  have "r1 = ?b @ ?r2" by simp
  moreover have "r3 = ?c @ ?r4" by simp
  ultimately have s: "s = entry bid cur @ rest"
    using r1 r3 b c by (simp add: entry_def)
  have "DQ \<notin> set ?b" using set_takeWhileD by fastforce
  moreover have "CHR ''<'' \<notin> set ?c" using set_takeWhileD by fastforce
  ultimately show ?thesis using s b c by simp
qed


lemma bibliomixed_at_not_lt: "c \<noteq> CHR ''<'' \<Longrightarrow> bibliomixed_at (c # s) = None"
  by (simp add: bibliomixed_at_def)

lemma bibliomixed_at_Nil [simp]: "bibliomixed_at [] = None"
  by (simp add: bibliomixed_at_def)

lemma bib_matches_Nil [simp]: "bib_matches [] = []"
  by (simp add: bib_matches_def finditer.simps)

lemma bib_matches_skip: "c \<noteq> CHR ''<'' \<Longrightarrow> bib_matches (c # s) = bib_matches s"
  unfolding bib_matches_def
  by (subst finditer.simps) (simp add: bibliomixed_at_not_lt)

lemma bib_matches_pre: "CHR ''<'' \<notin> set pre \<Longrightarrow> bib_matches (pre @ s) = bib_matches s"
  by (induction pre) (auto simp: bib_matches_skip)

lemma bib_matches_no_markup: "CHR ''<'' \<notin> set s \<Longrightarrow> bib_matches s = []"
  using bib_matches_pre [of s "[]"] by simp

lemma entry_not_Nil [simp]: "entry bid cur \<noteq> []"
  by (simp add: entry_def)

lemma bib_matches_entry:
  assumes "bid \<noteq> []" "DQ \<notin> set bid" "CHR ''<'' \<notin> set cur"
  shows "bib_matches (entry bid cur @ rest) = (entry bid cur, bid, cur) # bib_matches rest"
  unfolding bib_matches_def
  by (subst finditer.simps) (simp add: bibliomixed_at_entry [OF assms])

lemma finditer_member:
  "x \<in> set (finditer m s) \<Longrightarrow> \<exists>t r. m t = Some (x, r)"
proof (induction "length s" arbitrary: s rule: less_induct)
  case less
  have IH: "\<And>s'. length s' < length s \<Longrightarrow> x \<in> set (finditer m s') \<Longrightarrow> \<exists>t r. m t = Some (x, r)"
    using less.hyps by blast
  from less.prems show ?case
    by (subst (asm) finditer.simps)
       (auto split: option.splits if_splits list.splits intro: IH)
qed

lemma bib_matches_member:
  assumes "(g, bid, cur) \<in> set (bib_matches s)"
  shows "g = entry bid cur \<and> bid \<noteq> [] \<and> DQ \<notin> set bid \<and> CHR ''<'' \<notin> set cur"
  using finditer_member [OF assms [unfolded bib_matches_def]] bibliomixed_at_SomeD by blast

lemma replace_first_pre:
  assumes "old \<noteq> []" "hd old \<notin> set pre"
  shows "replace_first old new (pre @ old @ post) = pre @ new @ post"
  using assms
proof (induction pre)
  case Nil
  then show ?case by (cases old) (auto simp: strip_prefix_Some split: option.splits)
next
  case (Cons c pre)
  then obtain p ps where "old = p # ps" "p \<noteq> c" by (cases old) auto
  with Cons show ?case by simp
qed


lemma bib_content_step_clean:
  "bib_content_step cits (c, f) (g, bid, cur) =
     (case matched_clean cits bid of
        None \<Rightarrow> (c, f)
      | Some full \<Rightarrow>
          if 10 * length cur < 7 * length full
          then (replace_first g (entry bid (html_escape full)) c, f @ [mk_fix bid cur full])
          else (c, f))"
  by (simp add: bib_content_step_def matched_clean_def truncated_def new_entry_def
           split: option.splits)

lemma bib_file_step_clean:
  "bib_file_step cits (c, k) (g, bid, cur) =
     (case matched_clean_num cits bid of
        None \<Rightarrow> (c, k)
      | Some full \<Rightarrow>
          if 10 * length (strip cur) < 7 * length full
          then (replace_first g (entry bid (html_escape full)) c, k + 1)
          else (c, k))"
  by (simp add: bib_file_step_def matched_clean_num_def truncated_def new_entry_def
           split: option.splits)

lemma bib_content_step_intact:
  "\<not> corrupted_content cits m \<Longrightarrow> bib_content_step cits (c, f) m = (c, f)"
  by (cases m) (auto simp: bib_content_step_clean corrupted_content_def split: option.splits)

lemma bib_file_step_intact:
  "\<not> corrupted_file cits m \<Longrightarrow> bib_file_step cits (c, k) m = (c, k)"
  by (cases m) (auto simp: bib_file_step_clean corrupted_file_def split: option.splits)

lemma foldl_content_intact:
  "\<forall>m \<in> set ms. \<not> corrupted_content cits m \<Longrightarrow>
     foldl (bib_content_step cits) (c, f) ms = (c, f)"
  by (induction ms) (auto simp: bib_content_step_intact)

lemma foldl_file_intact:
  "\<forall>m \<in> set ms. \<not> corrupted_file cits m \<Longrightarrow>
     foldl (bib_file_step cits) (c, k) ms = (c, k)"
  by (induction ms) (auto simp: bib_file_step_intact)

lemma entry_hd: "hd (entry bid cur) = CHR ''<''"
  by (simp add: entry_def)

lemma fix_content_single:
  assumes "CHR ''<'' \<notin> set pre" "CHR ''<'' \<notin> set post"
    and "bid \<noteq> []" "DQ \<notin> set bid" "CHR ''<'' \<notin> set cur"
    and "matched_clean cits bid = Some full"
  shows "fix_bibliography_content (pre @ entry bid cur @ post) cits =
     (if 10 * length cur < 7 * length full
      then (pre @ entry bid (html_escape full) @ post, [mk_fix bid cur full])
      else (pre @ entry bid cur @ post, []))"
proof -
  have ms: "bib_matches (pre @ entry bid cur @ post) = [(entry bid cur, bid, cur)]"
    using assms by (simp add: bib_matches_pre bib_matches_entry bib_matches_no_markup)
  have r: "replace_first (entry bid cur) new (pre @ entry bid cur @ post) = pre @ new @ post" for new
    using assms(1) by (intro replace_first_pre) (simp_all add: entry_hd)
  show ?thesis
    by (simp add: fix_bibliography_content_def ms bib_content_step_clean assms(6) r)
qed

lemma fix_file_single:
  assumes "CHR ''<'' \<notin> set pre" "CHR ''<'' \<notin> set post"
    and "bid \<noteq> []" "DQ \<notin> set bid" "CHR ''<'' \<notin> set cur"
    and "matched_clean_num cits bid = Some full"
  shows "fix_bibliography_file (pre @ entry bid cur @ post) cits =
     (if 10 * length (strip cur) < 7 * length full
      then (pre @ entry bid (html_escape full) @ post, 1)
      else (pre @ entry bid cur @ post, 0))"
proof -
  have ms: "bib_matches (pre @ entry bid cur @ post) = [(entry bid cur, bid, cur)]"
    using assms by (simp add: bib_matches_pre bib_matches_entry bib_matches_no_markup)
  have r: "replace_first (entry bid cur) new (pre @ entry bid cur @ post) = pre @ new @ post" for new
    using assms(1) by (intro replace_first_pre) (simp_all add: entry_hd)
  show ?thesis
    by (simp add: fix_bibliography_file_def ms bib_file_step_clean assms(6) r)
qed

lemma fixes_content_general:
  "snd (foldl (bib_content_step cits) (c, f) ms) =
     f @ List.map_filter (\<lambda>(g, bid, cur).
        case matched_clean cits bid of
          None \<Rightarrow> None
        | Some full \<Rightarrow> if 10 * length cur < 7 * length full then Some (mk_fix bid cur full) else None) ms"
proof (induction ms arbitrary: c f)
  case Nil
  then show ?case by (simp add: List.map_filter_simps)
next
  case (Cons m ms)
  obtain g bid cur where m: "m = (g, bid, cur)" by (cases m)
  show ?case
    by (cases "matched_clean cits bid")
       (simp_all add: m bib_content_step_clean Cons.IH List.map_filter_simps)
qed

lemma ids_content_general:
  "map fix_bib_id (snd (foldl (bib_content_step cits) (c, f) ms)) =
     map fix_bib_id f @ map (\<lambda>m. fst (snd m)) (filter (corrupted_content cits) ms)"
proof (induction ms arbitrary: c f)
  case Nil
  then show ?case by simp
next
  case (Cons m ms)
  obtain g bid cur where m: "m = (g, bid, cur)" by (cases m)
  show ?case
    by (cases "matched_clean cits bid")
       (simp_all add: m bib_content_step_clean Cons.IH corrupted_content_def mk_fix_def)
qed

lemma count_file_general:
  "snd (foldl (bib_file_step cits) (c, k) ms) = k + length (filter (corrupted_file cits) ms)"
proof (induction ms arbitrary: c k)
  case Nil
  then show ?case by simp
next
  case (Cons m ms)
  obtain g bid cur where m: "m = (g, bid, cur)" by (cases m)
  show ?case
    by (cases "matched_clean_num cits bid")
       (simp_all add: m bib_file_step_clean Cons.IH corrupted_file_def)
qed

lemma fix_file_snd:
  "snd (fix_bibliography_file doc cits) = snd (foldl (bib_file_step cits) (doc, 0) (bib_matches doc))"
  by (simp add: fix_bibliography_file_def split: prod.splits)

section \<open>C1: the 70 percent rule for bibliography entries\<close>


lemma bib_num_example: "bib_num ''ch0008s0009bib67'' = Some 67"
  by (simp add: bib_num_def bib_num_at_def is_digit_def int_of_digits_def digit_val_def)

lemma dec_67: "dec 67 = ''67''"
  by (simp add: dec.simps digit_char_def)


lemma html_escape_plain:
  "set s \<inter> {CHR ''&'', CHR ''<'', CHR ''>'', DQ, SQ} = {} \<Longrightarrow> html_escape s = s"
proof -
  have r: "x \<notin> set s \<Longrightarrow> replace_char x r s = s" for x r s
    by (induction s) (auto simp: replace_char_def)
  assume "set s \<inter> {CHR ''&'', CHR ''<'', CHR ''>'', DQ, SQ} = {}"
  then show ?thesis by (simp add: html_escape_def r)
qed



lemma contains_sublist: "contains sub s \<longleftrightarrow> sublist sub s"
proof (induction s)
  case Nil
  then show ?case by simp
next
  case (Cons c cs)
  have h: "strip_prefix sub (c # cs) \<noteq> None \<longleftrightarrow> prefix sub (c # cs)"
    by (simp add: strip_prefix_None)
  show ?case
    by (simp only: contains.simps sublist_Cons_right Cons h)
qed

lemma prefix_append_long: "prefix xs (ys @ zs) \<Longrightarrow> length xs \<le> length ys \<Longrightarrow> prefix xs ys"
  by (metis prefix_length_prefix prefixI)

lemma prefix_not_last:
  assumes "prefix old (X @ post)" and "X \<noteq> []" and "length old < length X"
  shows "prefix old (butlast X)"
proof -
  have "butlast X @ [last X] = X" using assms(2) by (rule append_butlast_last_id)
  then have "X @ post = butlast X @ ([last X] @ post)"
    by (metis append.assoc)
  with assms(1) have "prefix old (butlast X @ ([last X] @ post))" by simp
  moreover have "length old \<le> length (butlast X)" using assms(3) by simp
  ultimately show ?thesis by (rule prefix_append_long)
qed

lemma replace_first_first_occurrence:
  assumes "old \<noteq> []" and "\<not> contains old (butlast (pre @ old))"
  shows "replace_first old new (pre @ old @ post) = pre @ new @ post"
  using assms(2)
proof (induction pre)
  case Nil
  then show ?case using assms(1) by (cases old) (simp_all add: strip_prefix_append [of old post, simplified])
next
  case (Cons c pre)
  define X where "X = (c # pre) @ old"
  have ns: "\<not> sublist old (butlast X)"
    using Cons.prems by (simp add: contains_sublist X_def)
  have b: "butlast X = c # butlast (pre @ old)"
    using assms(1) by (simp add: X_def)
  have "\<not> prefix old (X @ post)"
  proof
    assume p: "prefix old (X @ post)"
    have "prefix old (butlast X)"
      using p by (rule prefix_not_last) (simp_all add: X_def)
    then show False using ns by (simp add: prefix_imp_sublist)
  qed
  then have n: "strip_prefix old (c # pre @ old @ post) = None"
    by (simp add: strip_prefix_None X_def)
  have "\<not> sublist old (butlast (pre @ old))"
    using ns unfolding b sublist_Cons_right by blast
  then have "\<not> contains old (butlast (pre @ old))"
    by (simp add: contains_sublist)
  with Cons.IH n show ?case by simp
qed

section \<open>C5: the replacement of a corrupted bibliography record\<close>



section \<open>C7: a document without corrupted regions is returned as it was\<close>



lemma close_overlap:
  assumes "prefix ''</bibliomixed>'' (X @ ''</bibliomixed>'' @ rest)" and "X \<noteq> []"
  shows "prefix ''</bibliomixed>'' X"
proof -
  define cl where "cl = ''</bibliomixed>''"
  have p: "prefix cl (X @ cl @ rest)" using assms(1) by (simp add: cl_def)
  have "prefix X (X @ cl @ rest)" by simp
  with p have "prefix cl X \<or> prefix X cl" by (rule prefix_same_cases)
  moreover have "prefix cl X" if px: "prefix X cl"
  proof -
    from px obtain Z where z: "cl = X @ Z" by (auto simp: prefix_def)
    show ?thesis
    proof (cases Z)
      case Nil
      with z show ?thesis by simp
    next
      case (Cons a Z')
      from p z have "prefix Z (cl @ rest)" by simp
      with Cons have "a = CHR ''<''" by (simp add: cl_def)
      moreover from assms(2) obtain x X' where "X = x # X'" by (cases X) auto
      with z Cons have "a \<in> set (tl cl)" by simp
      ultimately show ?thesis by (simp add: cl_def)
    qed
  qed
  ultimately show ?thesis by (auto simp: cl_def)
qed

lemma bibliomixed_at_markup:
  assumes "CHR ''<'' \<in> set txt" and "\<not> contains ''</bibliomixed>'' txt" and "DQ \<notin> set bid"
  shows "bibliomixed_at (entry bid txt @ rest) = None"
proof (cases "bid = []")
  case True
  then show ?thesis by (simp add: bibliomixed_at_def entry_def)
next
  case False
  from assms(1) obtain t1 t2 where t: "txt = t1 @ CHR ''<'' # t2" "CHR ''<'' \<notin> set t1"
    by (meson split_list_first)
  have e: "entry bid txt @ rest =
      (''<bibliomixed id='' @ [DQ]) @ (bid @ DQ # (''>'' @ t1 @ CHR ''<'' # (t2 @ ''</bibliomixed>'' @ rest)))"
    by (simp add: entry_def t)
  have np: "\<not> prefix ''</bibliomixed>'' ((CHR ''<'' # t2) @ ''</bibliomixed>'' @ rest)"
  proof
    assume "prefix ''</bibliomixed>'' ((CHR ''<'' # t2) @ ''</bibliomixed>'' @ rest)"
    then have "prefix ''</bibliomixed>'' (CHR ''<'' # t2)" by (rule close_overlap) simp
    then obtain w where "CHR ''<'' # t2 = ''</bibliomixed>'' @ w" by (auto simp: prefix_def)
    then have "txt = t1 @ ''</bibliomixed>'' @ w" using t(1) by simp
    then have "sublist ''</bibliomixed>'' txt" unfolding sublist_def by blast
    with assms(2) show False by (simp add: contains_sublist)
  qed
  then have sp: "strip_prefix ''</bibliomixed>'' (CHR ''<'' # t2 @ ''</bibliomixed>'' @ rest) = None"
    by (simp add: strip_prefix_None)
  show ?thesis
    unfolding bibliomixed_at_def e strip_prefix_append
    using False assms(3) t(2) sp
    by (simp add: span_until Let_def)
qed


lemma bibliomixed_at_no_open:
  "strip_prefix (''<bibliomixed id='' @ [DQ]) s = None \<Longrightarrow> bibliomixed_at s = None"
  by (simp add: bibliomixed_at_def)

lemma bib_matches_no_open:
  "\<not> contains (''<bibliomixed id='' @ [DQ]) s \<Longrightarrow> bib_matches s = []"
proof (induction s)
  case Nil
  then show ?case by simp
next
  case (Cons c cs)
  then have n: "strip_prefix (''<bibliomixed id='' @ [DQ]) (c # cs) = None"
    and r: "\<not> contains (''<bibliomixed id='' @ [DQ]) cs"
    by simp_all
  have "bib_matches (c # cs) = bib_matches cs"
    unfolding bib_matches_def
    by (subst finditer.simps) (simp add: bibliomixed_at_no_open [OF n])
  with Cons.IH [OF r] show ?case by simp
qed

lemma bib_matches_markup_entry:
  assumes "CHR ''<'' \<in> set txt" and "\<not> contains ''</bibliomixed>'' txt" and "DQ \<notin> set bid"
    and "CHR ''<'' \<notin> set pre" and "CHR ''<'' \<notin> set bid"
    and "\<not> contains (''<bibliomixed id='' @ [DQ]) (txt @ ''</bibliomixed>'' @ post)"
  shows "bib_matches (pre @ entry bid txt @ post) = []"
proof -
  define body where "body = txt @ ''</bibliomixed>'' @ post"
  define opn where "opn = ''bibliomixed id='' @ [DQ] @ bid @ [DQ] @ ''>''"
  have e: "entry bid txt @ post = CHR ''<'' # (opn @ body)"
    by (simp add: entry_def body_def opn_def)
  have n: "bibliomixed_at (CHR ''<'' # (opn @ body)) = None"
    using bibliomixed_at_markup [OF assms(1-3), of post] by (simp add: e)
  have "bib_matches (CHR ''<'' # (opn @ body)) = bib_matches (opn @ body)"
    unfolding bib_matches_def by (subst finditer.simps) (simp add: n)
  also have "\<dots> = bib_matches body"
    by (rule bib_matches_pre) (simp add: opn_def assms(5))
  also have "\<dots> = []"
    using assms(6) by (simp add: bib_matches_no_open body_def)
  finally show ?thesis
    using assms(4) by (simp add: bib_matches_pre e)
qed

section \<open>C10: entries whose content holds markup\<close>

text \<open>
  Claim C10. A bibliography entry whose content, the text between its opening tag and its
  closing tag, holds a \<open><\<close> is not matched by the detection pattern at its position;
  every region the pattern finds in any document has a content without \<open><\<close>, a single
  pure text node; and a document made of such an entry, between texts in which no further
  entry opens, is returned unchanged by both fixers, with no fix reported.
\<close>

theorem C10_entries_with_markup_untouched:
  assumes "CHR ''<'' \<in> set txt" and "\<not> contains ''</bibliomixed>'' txt" and "DQ \<notin> set bid"
  shows "bibliomixed_at (entry bid txt @ rest) = None
       \<and> (\<forall>m \<in> set (bib_matches doc).
             fst m = entry (fst (snd m)) (snd (snd m)) \<and> CHR ''<'' \<notin> set (snd (snd m)))
       \<and> (CHR ''<'' \<notin> set pre \<and> CHR ''<'' \<notin> set bid
            \<and> \<not> contains (''<bibliomixed id='' @ [DQ]) (txt @ ''</bibliomixed>'' @ post) \<longrightarrow>
          fix_bibliography_content (pre @ entry bid txt @ post) cits = (pre @ entry bid txt @ post, [])
          \<and> fix_bibliography_file (pre @ entry bid txt @ post) ncits = (pre @ entry bid txt @ post, 0))"
proof -
  have a: "bibliomixed_at (entry bid txt @ rest) = None"
    using assms by (rule bibliomixed_at_markup)
  have b: "\<forall>m \<in> set (bib_matches doc).
             fst m = entry (fst (snd m)) (snd (snd m)) \<and> CHR ''<'' \<notin> set (snd (snd m))"
    using bib_matches_member [of _ _ _ doc] by auto
  have c: "fix_bibliography_content (pre @ entry bid txt @ post) cits = (pre @ entry bid txt @ post, [])
          \<and> fix_bibliography_file (pre @ entry bid txt @ post) ncits = (pre @ entry bid txt @ post, 0)"
    if "CHR ''<'' \<notin> set pre" "CHR ''<'' \<notin> set bid"
      "\<not> contains (''<bibliomixed id='' @ [DQ]) (txt @ ''</bibliomixed>'' @ post)"
    using bib_matches_markup_entry [OF assms that]
    by (simp add: fix_bibliography_content_def fix_bibliography_file_def)
  from a b c show ?thesis by blast
qed

text \<open>C10 on an entry whose content holds an \<open>emphasis\<close> element.\<close>

theorem C10_witness:
  "bibliomixed_at (entry ''ch0008s0009bib01'' ''Smith <emphasis>A title</emphasis>'' @ '' B'') = None
   \<and> fix_bibliography_content (''A '' @ entry ''ch0008s0009bib01'' ''Smith <emphasis>A title</emphasis>'' @ '' B'')
        [''CR1'' \<mapsto> ''Smith, J. (2001). A title. Journal of Psychiatric Research, 17(1), 37-49.'']
      = (''A '' @ entry ''ch0008s0009bib01'' ''Smith <emphasis>A title</emphasis>'' @ '' B'', [])
   \<and> fix_bibliography_file (''A '' @ entry ''ch0008s0009bib01'' ''Smith <emphasis>A title</emphasis>'' @ '' B'')
        [1 \<mapsto> ''Smith, J. (2001). A title. Journal of Psychiatric Research, 17(1), 37-49.'']
      = (''A '' @ entry ''ch0008s0009bib01'' ''Smith <emphasis>A title</emphasis>'' @ '' B'', 0)"
proof -
  have h1: "CHR ''<'' \<in> set ''Smith <emphasis>A title</emphasis>''" by simp
  have h2: "\<not> contains ''</bibliomixed>'' ''Smith <emphasis>A title</emphasis>''" by simp
  have h3: "DQ \<notin> set ''ch0008s0009bib01''" by simp
  have h4: "CHR ''<'' \<notin> set ''A '' \<and> CHR ''<'' \<notin> set ''ch0008s0009bib01''
            \<and> \<not> contains (''<bibliomixed id='' @ [DQ])
                 (''Smith <emphasis>A title</emphasis>'' @ ''</bibliomixed>'' @ '' B'')"
    by simp
  show ?thesis
    using C10_entries_with_markup_untouched [OF h1 h2 h3, of "'' B''" "[]" "''A ''" "'' B''"] h4
    by blast
qed

lemma search_Some_suffix:
  "search m s = Some x \<Longrightarrow> \<exists>t. suffix t s \<and> m t = Some x"
proof (induction s)
  case Nil
  then show ?case by auto
next
  case (Cons c cs)
  show ?case
  proof (cases "m (c # cs)")
    case None
    with Cons.prems have "search m cs = Some x" by simp
    from Cons.IH [OF this] obtain t where "suffix t cs" "m t = Some x" by blast
    then show ?thesis by (auto intro: suffix_ConsI)
  next
    case (Some y)
    with Cons.prems have "y = x" by simp
    with Some show ?thesis by blast
  qed
qed

lemma search_not_None:
  "m t \<noteq> None \<Longrightarrow> search m (pre @ t) \<noteq> None"
proof (induction pre)
  case Nil
  then show ?case by (cases t) auto
next
  case (Cons c pre)
  then show ?case by (auto split: option.splits)
qed

lemma digit_val_digit_char: "d < 10 \<Longrightarrow> digit_val (digit_char d) = d"
proof -
  assume "d < 10"
  then have "d \<in> {0, 1, 2, 3, 4, 5, 6, 7, 8, 9}" by auto
  then show ?thesis
    by (auto simp: digit_val_def digit_char_def)
qed

lemma is_digit_digit_char: "d < 10 \<Longrightarrow> is_digit (digit_char d)"
proof -
  assume "d < 10"
  then have "d \<in> {0, 1, 2, 3, 4, 5, 6, 7, 8, 9}" by auto
  then show ?thesis
    by (auto simp: is_digit_def digit_char_def)
qed

lemma int_of_digits_snoc: "int_of_digits (xs @ [c]) = 10 * int_of_digits xs + digit_val c"
  by (simp add: int_of_digits_def)

lemma int_of_digits_dec: "int_of_digits (dec n) = n"
proof (induction n rule: dec.induct)
  case (1 n)
  show ?case
  proof (cases "n < 10")
    case True
    then show ?thesis
      by (subst dec.simps) (simp add: int_of_digits_def digit_val_digit_char)
  next
    case False
    with "1.IH" have "int_of_digits (dec (n div 10)) = n div 10" by simp
    with False show ?thesis
      by (subst dec.simps) (simp add: int_of_digits_snoc digit_val_digit_char)
  qed
qed

lemma dec_digits: "\<forall>c \<in> set (dec n). is_digit c"
proof (induction n rule: dec.induct)
  case (1 n)
  show ?case
  proof (cases "n < 10")
    case True
    then show ?thesis by (subst dec.simps) (simp add: is_digit_digit_char)
  next
    case False
    with "1.IH" have "\<forall>c \<in> set (dec (n div 10)). is_digit c" by simp
    with False show ?thesis
      by (subst dec.simps) (simp add: is_digit_digit_char)
  qed
qed

lemma dec_not_Nil: "dec n \<noteq> []"
  by (subst dec.simps) simp


lemma span_class:
  assumes "\<forall>c \<in> set xs. P c" and "\<not> P y"
  shows "takeWhile P (xs @ y # ys) = xs" and "dropWhile P (xs @ y # ys) = y # ys"
  using assms by (induction xs) auto

lemma ends_with_suffix: "ends_with s suf \<longleftrightarrow> suffix suf s"
  by (simp add: ends_with_def strip_prefix_None suffix_to_prefix)

lemma same_separator:
  assumes "Y @ x # a = X @ x # b" and "x \<notin> set a" and "x \<notin> set b"
  shows "a = b"
proof -
  have "rev a @ x # rev Y = rev b @ x # rev X"
    using arg_cong [OF assms(1), of rev] by simp
  then have "takeWhile (\<lambda>c. c \<noteq> x) (rev a @ x # rev Y) = takeWhile (\<lambda>c. c \<noteq> x) (rev b @ x # rev X)"
    by simp
  then have "rev a = rev b"
    using assms(2,3) by (simp add: span_until)
  then show ?thesis by simp
qed

lemma chapter_file_at_SomeD:
  assumes "chapter_file_at t = Some ds"
  shows "(t = ''_'' @ ds @ ''_Chapter.xhtml'' \<or> t = ''_'' @ ds @ ''_Chapter.xhtml'' @ [NL])
          \<and> (\<forall>c \<in> set ds. is_digit c)"
proof -
  from assms obtain r where r: "t = ''_'' @ r"
    by (auto simp: chapter_file_at_def strip_prefix_Some split: option.splits)
  let ?ds = "takeWhile is_digit r" and ?rest = "dropWhile is_digit r"
  from assms r have d: "ds = ?ds"
    by (auto simp: chapter_file_at_def Let_def split: option.splits if_splits)
  from assms r obtain e where e: "?rest = ''_Chapter.xhtml'' @ e" "e = [] \<or> e = [NL]"
    by (auto simp: chapter_file_at_def Let_def strip_prefix_Some split: option.splits if_splits)
  have "r = ?ds @ ?rest" by simp
  with r d e have "t = ''_'' @ ds @ ''_Chapter.xhtml'' @ e" by simp
  moreover have "\<forall>c \<in> set ds. is_digit c"
    unfolding d using set_takeWhileD by fastforce
  ultimately show ?thesis using e(2) by auto
qed

lemma chapter_file_at_dec:
  "chapter_file_at (''_'' @ dec n @ ''_Chapter.xhtml'') = Some (dec n)"
proof -
  have nd: "\<not> is_digit (CHR ''_'')" by (simp add: is_digit_def)
  show ?thesis
    unfolding chapter_file_at_def strip_prefix_append
    by (simp add: span_class [OF dec_digits nd] dec_not_Nil Let_def)
qed

lemma get_chapter_number_from_xhtml_glob:
  assumes "ends_with f (''_'' @ dec n @ ''_Chapter.xhtml'')"
  shows "get_chapter_number_from_xhtml f = Some n"
proof -
  define tail where "tail = ''_Chapter.xhtml''"
  from assms obtain X where f: "f = X @ (''_'' @ dec n @ tail)"
    by (auto simp: ends_with_suffix suffix_def tail_def)
  have "search chapter_file_at (X @ (''_'' @ dec n @ tail)) \<noteq> None"
    using chapter_file_at_dec [of n] by (intro search_not_None) (simp add: tail_def)
  then obtain ds where s: "search chapter_file_at f = Some ds" using f by auto
  from search_Some_suffix [OF s] obtain t Y where t: "f = Y @ t" "chapter_file_at t = Some ds"
    by (auto simp: suffix_def)
  from chapter_file_at_SomeD [OF t(2)]
  have c: "t = ''_'' @ ds @ tail \<or> t = ''_'' @ ds @ tail @ [NL]" and dd: "\<forall>c \<in> set ds. is_digit c"
    by (simp_all add: tail_def)
  have "t \<noteq> ''_'' @ ds @ tail @ [NL]"
  proof
    assume "t = ''_'' @ ds @ tail @ [NL]"
    with f t(1) have "last (X @ (''_'' @ dec n @ tail)) = last (Y @ ''_'' @ ds @ tail @ [NL])" by simp
    then show False by (simp add: tail_def)
  qed
  with c have "t = ''_'' @ ds @ tail" by simp
  with f t(1) have "(Y @ CHR ''_'' # ds) @ tail = (X @ CHR ''_'' # dec n) @ tail" by simp
  then have "Y @ CHR ''_'' # ds = X @ CHR ''_'' # dec n" by (simp only: append_same_eq)
  moreover have "CHR ''_'' \<notin> set ds" using dd by (auto simp: is_digit_def)
  moreover have "CHR ''_'' \<notin> set (dec n)" using dec_digits [of n] by (auto simp: is_digit_def)
  ultimately have "ds = dec n" by (rule same_separator)
  with s show ?thesis by (simp add: get_chapter_number_from_xhtml_def int_of_digits_dec)
qed

lemma get_xhtml_file_for_chapter_Some:
  assumes "get_xhtml_file_for_chapter dir n = Some f"
  shows "f \<in> set dir \<and> ends_with f (''_'' @ dec n @ ''_Chapter.xhtml'')"
proof -
  let ?P = "\<lambda>name. ends_with name (''_'' @ dec n @ ''_Chapter.xhtml'')"
  from assms obtain fs where "filter ?P dir = f # fs"
    by (auto simp: get_xhtml_file_for_chapter_def split: list.splits)
  then have "f \<in> set (filter ?P dir)" by simp
  then show ?thesis by simp
qed

section \<open>C2: the chapter ordinal of the title and the numeric offset\<close>





section \<open>Properties of the keyword fixers and of escaping\<close>

lemma foldl_append_acc:
  "foldl (\<lambda>acc k. acc @ g k) init ks = init @ concat (map g ks)"
  by (induction ks arbitrary: init) simp_all

lemma keywords_xml_starts: "\<exists>t. keywords_xml ks = ''<keywordset>'' @ t"
  by (simp add: keywords_xml_def foldl_append_acc)

lemma replace_first_sublist:
  "sublist old s \<Longrightarrow> \<exists>pre post. replace_first old new s = pre @ new @ post"
proof (induction s)
  case Nil
  then have "replace_first old new [] = [] @ new @ []" by simp
  then show ?case by blast
next
  case (Cons c cs)
  show ?case
  proof (cases "strip_prefix old (c # cs)")
    case (Some r)
    then have "replace_first old new (c # cs) = [] @ new @ r" by simp
    then show ?thesis by blast
  next
    case None
    then have "\<not> prefix old (c # cs)" by (simp add: strip_prefix_None)
    with Cons.prems have "sublist old cs" by (simp add: sublist_Cons_right)
    from Cons.IH [OF this] obtain pre post where "replace_first old new cs = pre @ new @ post"
      by blast
    with None have "replace_first old new (c # cs) = (c # pre) @ new @ post" by simp
    then show ?thesis by blast
  qed
qed

lemma replaced_contains_keywordset:
  assumes "sublist old s"
  shows "contains ''<keywordset>'' (replace_first old (keywords_xml ks) s)"
proof -
  from replace_first_sublist [OF assms] obtain pre post
    where r: "replace_first old (keywords_xml ks) s = pre @ keywords_xml ks @ post" by blast
  from keywords_xml_starts obtain t where "keywords_xml ks = ''<keywordset>'' @ t" by blast
  with r have "replace_first old (keywords_xml ks) s = pre @ ''<keywordset>'' @ (t @ post)" by simp
  then show ?thesis unfolding contains_sublist sublist_def by blast
qed

lemma search_group0_sublist:
  assumes "search p content = Some (g, r)" and "\<And>t g r. p t = Some (g, r) \<Longrightarrow> prefix g t"
  shows "sublist g content"
proof -
  from search_Some_suffix [OF assms(1)] obtain t where t: "suffix t content" "p t = Some (g, r)"
    by blast
  from assms(2) [OF t(2)] obtain w where "t = g @ w" by (auto simp: prefix_def)
  moreover from t(1) obtain y where "content = y @ t" by (auto simp: suffix_def)
  ultimately have "content = y @ g @ w" by simp
  then show ?thesis unfolding sublist_def by blast
qed

lemma group0_prefix: "prefix (group0 s rest) s"
  by (simp add: group0_def take_is_prefix)

lemma all_pattern1_prefix: "all_pattern1_at t = Some (g, r) \<Longrightarrow> prefix g t"
  by (auto simp: all_pattern1_at_def Let_def group0_prefix split: option.splits if_splits list.splits)

lemma all_pattern2_prefix: "all_pattern2_at t = Some (g, r) \<Longrightarrow> prefix g t"
  by (auto simp: all_pattern2_at_def Let_def group0_prefix split: option.splits if_splits)

lemma try_patterns_result:
  assumes "\<forall>p \<in> set ps. \<forall>t g r. p t = Some (g, r) \<longrightarrow> prefix g t"
  shows "try_patterns env name content ps = (content, None)
       \<or> contains ''<keywordset>'' (fst (try_patterns env name content ps))"
  using assms
proof (induction ps)
  case Nil
  then show ?case by simp
next
  case (Cons p ps)
  have IH: "try_patterns env name content ps = (content, None)
       \<or> contains ''<keywordset>'' (fst (try_patterns env name content ps))"
    using Cons.IH Cons.prems by simp
  show ?case
  proof (cases "search p content")
    case None
    with IH show ?thesis by simp
  next
    case (Some m)
    obtain g r where m: "m = (g, r)" by (cases m)
    have sub: "sublist g content"
      using Some m Cons.prems by (intro search_group0_sublist [of p content g r]) auto
    show ?thesis
      using IH Some m replaced_contains_keywordset [OF sub]
      by (auto simp: Let_def split: option.splits)
  qed
qed

lemma fix_all_file_idem:
  "fix_all_file env name (fst (fix_all_file env name fr)) = (fst (fix_all_file env name fr), None)"
proof (cases fr)
  case (Inl e)
  then show ?thesis by (simp add: fix_all_file_def)
next
  case (Inr content)
  show ?thesis
  proof (cases "CHR ''@'' \<notin> set content \<or> contains ''<keywordset>'' content")
    case True
    then show ?thesis using Inr by (auto simp: fix_all_file_def)
  next
    case False
    let ?ps = "[all_pattern1_at, all_pattern2_at]"
    have f: "fix_all_file env name fr =
        (Inr (fst (try_patterns env name content ?ps)), snd (try_patterns env name content ?ps))"
      using False Inr by (simp add: fix_all_file_def split: prod.splits)
    have "try_patterns env name content ?ps = (content, None)
       \<or> contains ''<keywordset>'' (fst (try_patterns env name content ?ps))"
      by (rule try_patterns_result) (auto dest: all_pattern1_prefix all_pattern2_prefix)
    then show ?thesis
    proof
      assume u: "try_patterns env name content ?ps = (content, None)"
      then have "fix_all_file env name fr = (fr, None)" using f Inr by simp
      then show ?thesis by simp
    next
      assume "contains ''<keywordset>'' (fst (try_patterns env name content ?ps))"
      then show ?thesis unfolding f by (simp add: fix_all_file_def)
    qed
  qed
qed

lemma fix_all_file_guard:
  "contains ''<keywordset>'' content \<Longrightarrow> fix_all_file env name (Inr content) = (Inr content, None)"
  by (simp add: fix_all_file_def)

lemma fix_all_garbled_keywords_idem:
  "fix_all_garbled_keywords env (fst (fix_all_garbled_keywords env files))
     = (fst (fix_all_garbled_keywords env files), [])"
  by (induction files)
     (simp_all add: fix_all_garbled_keywords_def fix_all_file_idem List.map_filter_simps comp_def)


lemma replace_char_snoc:
  "replace_char x r (xs @ [y]) = replace_char x r xs @ (if y = x then r else [y])"
  by (simp add: replace_char_def)

lemma replace_char_Cons:
  "replace_char x r (y # ys) = (if y = x then r else [y]) @ replace_char x r ys"
  by (simp add: replace_char_def)

lemma replace_char_Nil [simp]: "replace_char x r [] = []"
  by (simp add: replace_char_def)

lemma length_replace_char: "r \<noteq> [] \<Longrightarrow> length s \<le> length (replace_char x r s)"
proof (induction s)
  case Nil
  then show ?case by simp
next
  case (Cons a s)
  then have "1 \<le> length r" by (cases r) auto
  with Cons show ?case by (auto simp: replace_char_Cons)
qed

lemma length_html_escape: "length s \<le> length (html_escape s)"
proof -
  have "length s \<le> length (replace_char (CHR ''&'') ''&amp;'' s)"
    by (rule length_replace_char) simp
  also have "\<dots> \<le> length (replace_char (CHR ''<'') ''&lt;'' (replace_char (CHR ''&'') ''&amp;'' s))"
    by (rule length_replace_char) simp
  also have "\<dots> \<le> length (replace_char (CHR ''>'') ''&gt;''
      (replace_char (CHR ''<'') ''&lt;'' (replace_char (CHR ''&'') ''&amp;'' s)))"
    by (rule length_replace_char) simp
  also have "\<dots> \<le> length (replace_char DQ ''&quot;'' (replace_char (CHR ''>'') ''&gt;''
      (replace_char (CHR ''<'') ''&lt;'' (replace_char (CHR ''&'') ''&amp;'' s))))"
    by (rule length_replace_char) simp
  also have "\<dots> \<le> length (html_escape s)"
    unfolding html_escape_def by (rule length_replace_char) simp
  finally show ?thesis .
qed

lemma replace_char_removes: "x \<notin> set r \<Longrightarrow> x \<notin> set (replace_char x r s)"
  by (induction s) (auto simp: replace_char_Cons)

lemma replace_char_keeps_out: "y \<notin> set s \<Longrightarrow> y \<notin> set r \<Longrightarrow> y \<notin> set (replace_char x r s)"
  by (induction s) (auto simp: replace_char_Cons)

lemma html_escape_no_lt: "CHR ''<'' \<notin> set (html_escape s)"
  unfolding html_escape_def
  by (intro replace_char_keeps_out replace_char_removes) simp_all

lemma strip_trimmed: "trimmed s \<Longrightarrow> strip s = s"
proof (cases s)
  case Nil
  then show ?thesis by (simp add: strip_def)
next
  case (Cons a t)
  assume "trimmed s"
  with Cons have h: "\<not> is_space (hd s)" "\<not> is_space (last s)" by (auto simp: trimmed_def)
  from h(1) Cons have d: "dropWhile is_space s = s" by simp
  from Cons obtain b u where bu: "rev s = b # u" by (cases "rev s") auto
  have "hd (rev s) = last s" using Cons by (simp add: hd_rev)
  with bu have "b = last s" by simp
  with h(2) have "dropWhile is_space (b # u) = b # u" by simp
  with d bu show ?thesis by (simp add: strip_def)
qed

lemma trimmed_strip: "strip s = s \<Longrightarrow> trimmed s"
proof (rule ccontr)
  assume e: "strip s = s" and n: "\<not> trimmed s"
  from n have ne: "s \<noteq> []" and c: "is_space (hd s) \<or> is_space (last s)"
    by (auto simp: trimmed_def)
  have l1: "length (dropWhile is_space (rev (dropWhile is_space s))) \<le> length (dropWhile is_space s)"
    by (metis length_dropWhile_le length_rev)
  have l2: "length (dropWhile is_space s) \<le> length s" by (rule length_dropWhile_le)
  from c show False
  proof
    assume "is_space (hd s)"
    with ne have "length (dropWhile is_space s) < length s" by (cases s) (auto simp: le_imp_less_Suc length_dropWhile_le)
    with l1 have "length (strip s) < length s" by (simp add: strip_def)
    with e show False by simp
  next
    assume sp: "is_space (last s)"
    show False
    proof (cases "dropWhile is_space s = s")
      case True
      from ne obtain b u where bu: "rev s = b # u" by (cases "rev s") auto
      have "hd (rev s) = last s" using ne by (simp add: hd_rev)
      with bu have "b = last s" by simp
      with sp have "dropWhile is_space (b # u) = dropWhile is_space u" by simp
      moreover have "length (dropWhile is_space u) \<le> length u" by (rule length_dropWhile_le)
      moreover have "length s = Suc (length u)" using bu by (metis length_Cons length_rev)
      ultimately have "length (dropWhile is_space (rev s)) < length s" using bu by simp
      with True have "length (strip s) < length s" by (simp add: strip_def)
      with e show False by simp
    next
      case False
      have "length (dropWhile is_space s) \<noteq> length s"
      proof
        assume "length (dropWhile is_space s) = length s"
        moreover have "s = takeWhile is_space s @ dropWhile is_space s" by simp
        ultimately have "takeWhile is_space s = []"
          by (metis add_cancel_left_left length_0_conv length_append)
        then have "dropWhile is_space s = s" by (metis append_Nil takeWhile_dropWhile_id)
        with False show False by simp
      qed
      with l2 have "length (dropWhile is_space s) < length s" by simp
      with l1 have "length (strip s) < length s" by (simp add: strip_def)
      with e show False by simp
    qed
  qed
qed

lemma trimmed_replace_char:
  assumes "trimmed s" and "r \<noteq> []" and "\<not> is_space (hd r)" and "\<not> is_space (last r)"
  shows "trimmed (replace_char x r s)"
proof (cases s rule: rev_cases)
  case Nil
  then show ?thesis by (simp add: trimmed_def)
next
  case (snoc ys y)
  then have ne: "s \<noteq> []" by simp
  with assms(1) have h: "\<not> is_space (hd s)" "\<not> is_space (last s)" by (auto simp: trimmed_def)
  obtain a t where at: "s = a # t" using ne by (cases s) auto
  have hd': "\<not> is_space (hd (replace_char x r s))"
    using h(1) assms(2,3) by (simp add: at replace_char_Cons)
  have "replace_char x r s = replace_char x r ys @ (if y = x then r else [y])"
    by (simp add: snoc replace_char_snoc)
  then have "last (replace_char x r s) = (if y = x then last r else y)"
    using assms(2) by simp
  with h(2) assms(4) snoc have "\<not> is_space (last (replace_char x r s))" by simp
  with hd' show ?thesis by (simp add: trimmed_def)
qed

lemma trimmed_entity:
  "trimmed s \<Longrightarrow> r \<in> {''&amp;'', ''&lt;'', ''&gt;'', ''&quot;'', ''&#x27;''} \<Longrightarrow>
     trimmed (replace_char x r s)"
  by (rule trimmed_replace_char) (auto simp: is_space_def)

lemma trimmed_html_escape: "trimmed s \<Longrightarrow> trimmed (html_escape s)"
  unfolding html_escape_def
  by (simp add: trimmed_entity)

lemma strip_html_escape:
  assumes "strip s = s"
  shows "strip (html_escape s) = html_escape s"
proof -
  from assms have "trimmed s" by (rule trimmed_strip)
  then have "trimmed (html_escape s)" by (rule trimmed_html_escape)
  then show ?thesis by (rule strip_trimmed)
qed

section \<open>C3: running the reconciliation twice\<close>





section \<open>C4: the keyword round trip\<close>

text \<open>
  Claim C4 at its input. The keyword spans of the source, with whitespace around one token
  and one span of whitespace only, yield \<open>Depression\<close>, \<open>Dysthymia\<close>, \<open>Mood\<close>. The
  derivative paragraph \<^verbatim>\<open>lfelicia@uccs. edu Depression Dysthymia Mood\<close> is found by
  \<open>find_garbled_keywords_files\<close> and replaced by \<open>fix_keywords_in_file\<close>, and by
  \<open>fix_all_garbled_keywords\<close>, with the structured list of exactly these tokens, in
  order, and no text of the email address is left. \<open>fix_keywords_section\<close> of
  fix\_content\_loss.py does not match this paragraph, because its pattern wants \<open>.edu\<close>
  without whitespace, and returns the document unchanged with no fix: the last conjunct.
\<close>

theorem C4_keyword_round_trip:
  "extract_keywords_from_xhtml
     (Inr (''<div class='' @ [DQ] @ ''KeywordGroup'' @ [DQ] @ ''><span class='' @ [DQ]
       @ ''Keyword'' @ [DQ] @ ''>Depression</span> <span class='' @ [DQ] @ ''Keyword'' @ [DQ]
       @ '' lang='' @ [DQ] @ ''en'' @ [DQ] @ ''> Dysthymia </span><span class='' @ [DQ] @ ''Keyword'' @ [DQ]
       @ ''> </span><span class='' @ [DQ] @ ''Keyword'' @ [DQ] @ ''>Mood</span></div>''))
     = [''Depression'', ''Dysthymia'', ''Mood'']
   \<and> is_garbled_keywords_file ''<sect1><para>lfelicia@uccs. edu Depression Dysthymia Mood</para></sect1>''
   \<and> fix_keywords_in_file ''sect1.9781071643624.ch0008s0001.xml''
      ''<sect1><para>lfelicia@uccs. edu Depression Dysthymia Mood</para></sect1>''
      [''Depression'', ''Dysthymia'', ''Mood'']
     = (''<sect1><keywordset>'' @ [NL] @ ''      <keyword>Depression</keyword>'' @ [NL]
        @ ''      <keyword>Dysthymia</keyword>'' @ [NL] @ ''      <keyword>Mood</keyword>'' @ [NL]
        @ ''   </keywordset></sect1>'',
      Some \<lparr>kw_file = ''sect1.9781071643624.ch0008s0001.xml'',
         kw_original = ''lfelicia@uccs. edu Depression Dysthymia Mood'',
         kw_keywords = [''Depression'', ''Dysthymia'', ''Mood'']\<rparr>)
   \<and> fst (fix_all_file [(''106097_6_En_6_Chapter.xhtml'', 
          Inr (''<span class='' @ [DQ] @ ''Keyword'' @ [DQ] @ ''>Depression</span><span class='' @ [DQ]
            @ ''Keyword'' @ [DQ] @ ''>Dysthymia</span><span class='' @ [DQ]
            @ ''Keyword'' @ [DQ] @ ''>Mood</span>''))]
        ''sect1.9781071643624.ch0008s0001.xml''
        (Inr ''<sect1><para>lfelicia@uccs. edu Depression Dysthymia Mood</para></sect1>''))
     = Inr (''<sect1><keywordset>'' @ [NL] @ ''      <keyword>Depression</keyword>'' @ [NL]
        @ ''      <keyword>Dysthymia</keyword>'' @ [NL] @ ''      <keyword>Mood</keyword>'' @ [NL]
        @ ''   </keywordset></sect1>'')
   \<and> fix_keywords_section ''<sect1><para>lfelicia@uccs. edu Depression Dysthymia Mood</para></sect1>''
      [''Depression'', ''Dysthymia'', ''Mood'']
     = (''<sect1><para>lfelicia@uccs. edu Depression Dysthymia Mood</para></sect1>'', [])"
  by code_simp

section \<open>Properties of the cleaning steps\<close>

lemma sub_all_Nil: "m [] = None \<Longrightarrow> sub_all m [] = []"
  by (subst sub_all.simps) simp

lemma sub_all_skip: "m (c # cs) = None \<Longrightarrow> sub_all m (c # cs) = c # sub_all m cs"
  by (subst sub_all.simps) simp

lemma sub_all_match:
  "m s = Some (rep, rest) \<Longrightarrow> length rest < length s \<Longrightarrow> sub_all m s = rep @ sub_all m rest"
  by (subst sub_all.simps) simp

lemma tag_at_not_lt: "c \<noteq> CHR ''<'' \<Longrightarrow> tag_at (c # cs) = None"
  by (simp add: tag_at_def)

lemma tag_at_Nil: "tag_at [] = None"
  by (simp add: tag_at_def)

lemma sub_all_tag_text:
  "CHR ''<'' \<notin> set s \<Longrightarrow> sub_all tag_at (s @ rest) = s @ sub_all tag_at rest"
proof (induction s)
  case Nil
  then show ?case by simp
next
  case (Cons a s)
  then have "a \<noteq> CHR ''<''" by auto
  then have "sub_all tag_at (a # (s @ rest)) = a # sub_all tag_at (s @ rest)"
    by (intro sub_all_skip tag_at_not_lt)
  with Cons show ?case by simp
qed

lemma is_lower_not_slash: "is_lower l \<Longrightarrow> l \<noteq> CHR ''/''"
  by (auto simp: is_lower_def)

lemma tag_at_tag:
  assumes "is_lower l" and "CHR ''>'' \<notin> set body"
  shows "tag_at (render_piece (Tag closing l body) @ rest) = Some ([], rest)"
  using assms is_lower_not_slash [OF assms(1)]
  by (cases closing) (simp_all add: tag_at_def span_until)

lemma sub_all_tag_render:
  "list_all valid_piece ps \<Longrightarrow>
     sub_all tag_at (render ps) = concat (map (\<lambda>p. case p of Text s \<Rightarrow> s | Tag c l b \<Rightarrow> []) ps)"
proof (induction ps)
  case Nil
  then show ?case by (simp add: render_def sub_all_Nil tag_at_Nil)
next
  case (Cons p ps)
  then have IH: "sub_all tag_at (render ps) =
      concat (map (\<lambda>p. case p of Text s \<Rightarrow> s | Tag c l b \<Rightarrow> []) ps)" by simp
  show ?case
  proof (cases p)
    case (Text s)
    with Cons.prems have "CHR ''<'' \<notin> set s" by simp
    then show ?thesis using IH Text by (simp add: render_def sub_all_tag_text)
  next
    case (Tag closing l body)
    with Cons.prems have v: "is_lower l" "CHR ''>'' \<notin> set body" by simp_all
    have "sub_all tag_at (render_piece (Tag closing l body) @ render ps) = [] @ sub_all tag_at (render ps)"
      using tag_at_tag [OF v, of closing "render ps"]
      by (intro sub_all_match [of tag_at _ "[]" "render ps"]) simp_all
    then show ?thesis using IH Tag by (simp add: render_def)
  qed
qed

lemma sub_all_tag_render_no_lt:
  assumes "list_all valid_piece ps"
  shows "CHR ''<'' \<notin> set (sub_all tag_at (render ps))"
proof -
  have "CHR ''<'' \<notin> set (concat (map (\<lambda>p. case p of Text s \<Rightarrow> s | Tag c l b \<Rightarrow> []) ps))"
    using assms by (induction ps) (auto split: piece.splits)
  then show ?thesis by (simp add: sub_all_tag_render [OF assms])
qed


lemma ws_at_Nil: "ws_at [] = None"
  by (simp add: ws_at_def)

lemma ws_at_space:
  "is_space c \<Longrightarrow> ws_at (c # cs) = Some ('' '', dropWhile is_space cs)"
  by (simp add: ws_at_def)

lemma ws_at_other: "\<not> is_space c \<Longrightarrow> ws_at (c # cs) = None"
  by (simp add: ws_at_def)

lemma space_is_space: "is_space (CHR '' '')"
  by (simp add: is_space_def)

lemma sub_all_ws_props:
  "list_all (\<lambda>c. \<not> is_space c \<or> c = CHR '' '') (sub_all ws_at t)
   \<and> \<not> sublist ''  '' (sub_all ws_at t)
   \<and> (t = [] \<or> \<not> is_space (hd t) \<longrightarrow> sub_all ws_at t = [] \<or> \<not> is_space (hd (sub_all ws_at t)))
   \<and> set (sub_all ws_at t) \<subseteq> insert (CHR '' '') (set t)"
proof (induction "length t" arbitrary: t rule: less_induct)
  case less
  show ?case
  proof (cases t)
    case Nil
    then show ?thesis by (simp add: sub_all_Nil ws_at_Nil)
  next
    case (Cons c cs)
    show ?thesis
    proof (cases "is_space c")
      case True
      define rest where "rest = dropWhile is_space cs"
      have l: "length rest < length t"
        using Cons by (simp add: rest_def le_imp_less_Suc length_dropWhile_le)
      have r: "sub_all ws_at t = CHR '' '' # sub_all ws_at rest"
        using sub_all_match [of ws_at t "'' ''" rest] l Cons True
        by (simp add: ws_at_space rest_def)
      have h: "rest = [] \<or> \<not> is_space (hd rest)"
        unfolding rest_def using hd_dropWhile [of is_space cs] by blast
      from less [OF l] h
      have a1: "list_all (\<lambda>c. \<not> is_space c \<or> c = CHR '' '') (sub_all ws_at rest)"
        and a2: "\<not> sublist ''  '' (sub_all ws_at rest)"
        and a3: "sub_all ws_at rest = [] \<or> \<not> is_space (hd (sub_all ws_at rest))"
        and a4: "set (sub_all ws_at rest) \<subseteq> insert (CHR '' '') (set rest)"
        by blast+
      have np: "\<not> prefix ''  '' (CHR '' '' # sub_all ws_at rest)"
      proof
        assume "prefix ''  '' (CHR '' '' # sub_all ws_at rest)"
        then obtain w where "sub_all ws_at rest = CHR '' '' # w" by (auto simp: prefix_def)
        with a3 space_is_space show False by simp
      qed
      have "set rest \<subseteq> set cs" unfolding rest_def by (auto dest: set_dropWhileD)
      with a4 have s: "set (sub_all ws_at rest) \<subseteq> insert (CHR '' '') (set t)"
        using Cons by auto
      show ?thesis
        unfolding r using a1 a2 np s True Cons
        by (simp add: sublist_Cons_right)
    next
      case False
      have l: "length cs < length t" using Cons by simp
      have r: "sub_all ws_at t = c # sub_all ws_at cs"
        using Cons False by (simp add: sub_all_skip ws_at_other)
      from less [OF l]
      have a1: "list_all (\<lambda>c. \<not> is_space c \<or> c = CHR '' '') (sub_all ws_at cs)"
        and a2: "\<not> sublist ''  '' (sub_all ws_at cs)"
        and a4: "set (sub_all ws_at cs) \<subseteq> insert (CHR '' '') (set cs)"
        by blast+
      have np: "\<not> prefix ''  '' (c # sub_all ws_at cs)"
        using False space_is_space by auto
      show ?thesis
        unfolding r using a1 a2 a4 np False Cons
        by (auto simp: sublist_Cons_right)
    qed
  qed
qed

lemma strip_decomp: "\<exists>v w. s = v @ strip s @ w"
proof -
  define d where "d = dropWhile is_space s"
  have "rev d = takeWhile is_space (rev d) @ dropWhile is_space (rev d)" by simp
  then have "rev (rev d) = rev (takeWhile is_space (rev d) @ dropWhile is_space (rev d))" by simp
  then have "d = rev (dropWhile is_space (rev d)) @ rev (takeWhile is_space (rev d))"
    by (simp only: rev_rev_ident rev_append)
  moreover have "s = takeWhile is_space s @ d" by (simp add: d_def)
  ultimately have "s = takeWhile is_space s @ strip s @ rev (takeWhile is_space (rev d))"
    by (simp add: strip_def d_def)
  then show ?thesis by blast
qed

lemma trimmed_strip_result: "trimmed (strip s)"
proof -
  define d where "d = dropWhile is_space s"
  define e where "e = dropWhile is_space (rev d)"
  have st: "strip s = rev e" by (simp add: strip_def d_def e_def)
  show ?thesis
  proof (cases "e = []")
    case True
    then show ?thesis by (simp add: st trimmed_def)
  next
    case False
    then have he: "\<not> is_space (hd e)" unfolding e_def by (rule hd_dropWhile)
    have "rev d = takeWhile is_space (rev d) @ e" by (simp add: e_def)
    then have "last (rev d) = last e" using False by (metis last_appendR)
    moreover have dn: "d \<noteq> []" using False by (auto simp: e_def)
    ultimately have "last e = hd d" by (simp add: last_rev)
    moreover have "\<not> is_space (hd d)" using dn unfolding d_def by (rule hd_dropWhile)
    ultimately have "\<not> is_space (last e)" by simp
    with he False show ?thesis by (simp add: st trimmed_def hd_rev last_rev)
  qed
qed

lemma collapse_whitespace_normalized: "normalized_ws (collapse_whitespace t)"
proof -
  let ?r = "sub_all ws_at t"
  from strip_decomp [of ?r] obtain v w where vw: "?r = v @ strip ?r @ w" by blast
  have "list_all (\<lambda>c. \<not> is_space c \<or> c = CHR '' '') ?r" using sub_all_ws_props [of t] by blast
  then have a: "list_all (\<lambda>c. \<not> is_space c \<or> c = CHR '' '') (strip ?r)"
    by (subst (asm) vw) simp
  have "\<not> sublist ''  '' ?r" using sub_all_ws_props [of t] by blast
  moreover have "sublist (strip ?r) ?r" using vw unfolding sublist_def by blast
  ultimately have b: "\<not> sublist ''  '' (strip ?r)"
    using sublist_order.order.trans by blast
  show ?thesis
    using a b by (simp add: normalized_ws_def collapse_whitespace_def contains_sublist trimmed_strip_result)
qed

lemma collapse_whitespace_no_lt:
  assumes "CHR ''<'' \<notin> set t"
  shows "CHR ''<'' \<notin> set (collapse_whitespace t)"
proof -
  let ?r = "sub_all ws_at t"
  from strip_decomp [of ?r] obtain v w where vw: "?r = v @ strip ?r @ w" by blast
  have "set (strip ?r) \<subseteq> set ?r" by (subst (2) vw) auto
  moreover have "set ?r \<subseteq> insert (CHR '' '') (set t)" using sub_all_ws_props [of t] by blast
  ultimately show ?thesis using assms by (auto simp: collapse_whitespace_def)
qed


section \<open>C6: the cleaning of a citation\<close>




section \<open>C8: a source document that cannot be read\<close>



section \<open>C9: the verification of index terms\<close>

text \<open>
  Claim C9 at a failing input. A marker that is not preceded by its primary text is
  flagged when it stands alone: the first conjunct. The same marker, at the same place
  after the same words, is not flagged once another marker with the same text stands
  earlier in the document with its text in front of it: the search for the expected
  pattern runs over the whole document, not over the text in front of the marker at hand.
\<close>

theorem C9_marker_checked_against_whole_document:
  "indexterm_issues ''sect1.9781071643624.ch0008s0002.xml''
     ''<para>They include <indexterm><primary>Anxiety disorders</primary></indexterm> of many kinds.</para>''
     = [\<lparr>issue_file = ''sect1.9781071643624.ch0008s0002.xml'', issue_text = ''Anxiety disorders'',
         issue_context = ''<para>They include ''\<rparr>]
   \<and> indexterm_issues ''sect1.9781071643624.ch0008s0002.xml''
     ''<para>Anxiety disorders<indexterm><primary>Anxiety disorders</primary></indexterm> are common. They include <indexterm><primary>Anxiety disorders</primary></indexterm> of many kinds.</para>''
     = []"
  by code_simp

end
